theory Spec2Isabelle
  imports Complex_Main "HOL-Library.Word" "HOL-Library.Log_Nat"
begin

unbundle bit_operations_syntax

section \<open>Python values used by the infrared library\<close>

text \<open>
  Python integers are unbounded and are modelled as \<^typ>\<open>int\<close>; a \<^verbatim>\<open>bytearray\<close> is a
  list of integers whose constructor and \<^verbatim>\<open>append\<close> raise \<^verbatim>\<open>ValueError\<close> outside
  \<open>0..255\<close>. Every exception the source can raise is a value of \<open>error\<close>.
\<close>

datatype error = ValueError string | IndexError | KeyError | ZeroDivisionError | OverflowError

text \<open>\<^verbatim>\<open>xs[i]\<close>: negative indices count from the end, anything else out of range raises.\<close>

definition py_index :: "'a list \<Rightarrow> int \<Rightarrow> error + 'a" where
  "py_index xs i =
     (if 0 \<le> i \<and> i < int (length xs) then Inr (xs ! nat i)
      else if i < 0 \<and> - int (length xs) \<le> i then Inr (xs ! nat (int (length xs) + i))
      else Inl IndexError)"

text \<open>\<^verbatim>\<open>a << n\<close>: a negative shift count raises.\<close>

definition py_lshift :: "int \<Rightarrow> int \<Rightarrow> error + int" where
  "py_lshift a n =
     (if n < 0 then Inl (ValueError ''negative shift count'') else Inr (push_bit (nat n) a))"

definition is_byte :: "int \<Rightarrow> bool" where
  "is_byte b \<longleftrightarrow> 0 \<le> b \<and> b < 256"

text \<open>\<^verbatim>\<open>bytearray([...])\<close> and \<^verbatim>\<open>bytearray.append\<close>.\<close>

definition bytearray :: "int list \<Rightarrow> error + int list" where
  "bytearray xs =
     (if list_all is_byte xs then Inr xs else Inl (ValueError ''byte must be in range(0, 256)''))"

definition bytearray_append :: "int list \<Rightarrow> int \<Rightarrow> error + int list" where
  "bytearray_append xs b =
     (if is_byte b then Inr (xs @ [b]) else Inl (ValueError ''byte must be in range(0, 256)''))"

text \<open>
  \<^verbatim>\<open>a[i] = v\<close> on an \<^verbatim>\<open>array.array("H", ...)\<close>: the index must exist and the value
  must fit an unsigned 16-bit item.
\<close>

definition array_set :: "int list \<Rightarrow> int \<Rightarrow> int \<Rightarrow> error + int list" where
  "array_set xs i v =
     (if i < - int (length xs) \<or> int (length xs) \<le> i then Inl IndexError
      else if v < 0 \<or> 65536 \<le> v then Inl OverflowError
      else if i < 0 then Inr (xs[nat (int (length xs) + i) := v])
      else Inr (xs[nat i := v]))"

text \<open>
  A \<^verbatim>\<open>dict\<close> keeps its keys in insertion order, and the receiver iterates over it, so
  it is an association list: \<^verbatim>\<open>d[k] = v\<close> overwrites in place or appends.
\<close>

fun dict_set :: "('k \<times> 'v) list \<Rightarrow> 'k \<Rightarrow> 'v \<Rightarrow> ('k \<times> 'v) list" where
  "dict_set [] k v = [(k, v)]"
| "dict_set ((k', v') # rest) k v =
     (if k' = k then (k, v) # rest else (k', v') # dict_set rest k v)"

subsection \<open>Floats\<close>

text \<open>
  A Python \<^verbatim>\<open>float\<close> is an IEEE 754 binary64 number. A finite one is modelled as the
  rational number it denotes, and every float operation the library uses rounds its exact
  result to the nearest representable number, ties to the even significand.
\<close>

text \<open>The nearest integer, a tie going to the even neighbour.\<close>

definition round_half_even :: "rat \<Rightarrow> int" where
  "round_half_even x =
     (let f = \<lfloor>x\<rfloor>; r = x - of_int f
      in if r < 1 / 2 then f else if 1 / 2 < r then f + 1 else if even f then f else f + 1)"

text \<open>
  The binary exponent of a positive rational \<open>a\<close>: the \<open>e\<close> with
  \<open>2 powi e \<le> a < 2 powi (e + 1)\<close>, from the bit lengths of numerator and denominator.
\<close>

definition floor_log2 :: "rat \<Rightarrow> int" where
  "floor_log2 a =
     (let (n, d) = quotient_of a; e = bitlen n - bitlen d
      in if 2 powi e \<le> a then e else e - 1)"

text \<open>
  Rounding to binary64: the magnitude is scaled so that 53 significant bits stand before
  the point (by \<open>2 powi 1074\<close> in the subnormal range, where fewer bits are left), rounded
  to an integer and scaled back. The result is not bounded here; the operations below say
  what happens when it leaves the finite range.
\<close>

definition round_to_double :: "rat \<Rightarrow> rat" where
  "round_to_double q =
     (if q = 0 then 0
      else (let a = \<bar>q\<bar>;
                p = max (floor_log2 a) (- 1022) - 52;
                n = round_half_even (a / 2 powi p)
            in sgn q * of_int n * 2 powi p))"

text \<open>The largest finite float, \<open>(2 ^ 53 - 1) * 2 ^ 971\<close>.\<close>

definition max_double :: rat where
  "max_double = (2 ^ 53 - 1) * 2 powi 971"

text \<open>The literal \<^verbatim>\<open>1.3\<close>.\<close>

definition float_1_3 :: rat where
  "float_1_3 = round_to_double (13 / 10)"

text \<open>
  \<^verbatim>\<open>a / b\<close> on two integers: CPython rounds the exact quotient once, raises
  \<^verbatim>\<open>ZeroDivisionError\<close> on a zero divisor and \<^verbatim>\<open>OverflowError\<close> when the rounded
  quotient is too large for a float.
\<close>

definition int_true_divide :: "int \<Rightarrow> int \<Rightarrow> error + rat" where
  "int_true_divide a b =
     (if b = 0 then Inl ZeroDivisionError
      else (let r = round_to_double (of_int a / of_int b)
            in if 2 powi 1024 \<le> \<bar>r\<bar> then Inl OverflowError else Inr r))"

text \<open>
  \<^verbatim>\<open>x - y\<close> on two floats. Subtracting a finite float from \<^verbatim>\<open>1.3\<close>, the only use
  the library makes of it, gives a finite float again (lemma \<open>float_sub_finite\<close>), so no
  infinity is modelled.
\<close>

definition float_sub :: "rat \<Rightarrow> rat \<Rightarrow> rat" where
  "float_sub x y = round_to_double (x - y)"

section \<open>protocol.py: the generic decoder\<close>

text \<open>
  The fields of \<^verbatim>\<open>InfraredDecoder\<close>. The properties \<^verbatim>\<open>decoder_state\<close>,
  \<^verbatim>\<open>received_data\<close> and \<^verbatim>\<open>last_error_margin\<close> return the field of the same name
  unchanged, so they are the record selectors.
\<close>

record decoder =
  error_threshold :: int
  decoder_state :: int
  received_data :: "int list"
  received_bit_index :: int
  received_byte :: int
  max_error_margin :: int
  last_error_margin :: int

text \<open>\<^verbatim>\<open>InfraredDecoder.__init__(error_threshold)\<close>.\<close>

definition InfraredDecoder_init :: "int \<Rightarrow> decoder" where
  "InfraredDecoder_init threshold =
     \<lparr>error_threshold = threshold,
      decoder_state = 0,
      received_data = [],
      received_bit_index = 0,
      received_byte = 0,
      max_error_margin = 0,
      last_error_margin = 0\<rparr>"

definition reset_bit_writer :: "decoder \<Rightarrow> decoder" where
  "reset_bit_writer d = d\<lparr>received_byte := 0, received_bit_index := 7\<rparr>"

definition reset :: "int \<Rightarrow> decoder \<Rightarrow> decoder" where
  "reset error_margin d =
     (reset_bit_writer (d\<lparr>decoder_state := 0, received_data := []\<rparr>))
       \<lparr>max_error_margin := 0, last_error_margin := error_margin\<rparr>"

definition check_pulse :: "int \<Rightarrow> int \<Rightarrow> decoder \<Rightarrow> bool \<times> decoder" where
  "check_pulse received expected d =
     (let margin = \<bar>received - expected\<bar>;
          match = margin < error_threshold d
      in if match then (True, d\<lparr>max_error_margin := max (max_error_margin d) margin\<rparr>)
         else (False, d))"

definition write_bit :: "int \<Rightarrow> decoder \<Rightarrow> error + decoder" where
  "write_bit b d =
     (case (if b = 1
            then (case py_lshift 1 (received_bit_index d) of
                    Inl e \<Rightarrow> Inl e
                  | Inr m \<Rightarrow> Inr (d\<lparr>received_byte := received_byte d OR m\<rparr>))
            else Inr d) of
        Inl e \<Rightarrow> Inl e
      | Inr d1 \<Rightarrow>
          (let d2 = d1\<lparr>received_bit_index := received_bit_index d1 - 1\<rparr>
           in if received_bit_index d2 < 0
              then (case bytearray_append (received_data d2) (received_byte d2) of
                      Inl e \<Rightarrow> Inl e
                    | Inr xs \<Rightarrow> Inr (reset_bit_writer (d2\<lparr>received_data := xs\<rparr>)))
              else Inr d2))"

text \<open>
  \<^verbatim>\<open>last_signal_strength\<close>. Threshold and margin are integers, as for the tag
  decoder, so the division is the true division of two integers and can raise;
  \<^verbatim>\<open>min(1, x)\<close> returns \<open>x\<close> only when it is below 1, and the integer 1 and the float
  1.0 denote the same number.
\<close>

definition last_signal_strength :: "decoder \<Rightarrow> error + rat" where
  "last_signal_strength d =
     (if last_error_margin d = 0 then Inr 1
      else (case int_true_divide (last_error_margin d) (error_threshold d) of
              Inl e \<Rightarrow> Inl e
            | Inr error_ratio \<Rightarrow>
                (let signal_strength = min 1 (float_sub float_1_3 error_ratio)
                 in Inr signal_strength)))"

section \<open>tag\_protocol.py\<close>

definition TAG_ERROR_MARGIN :: int where "TAG_ERROR_MARGIN = 500"
definition TAG_PREAMBLE :: "int list" where "TAG_PREAMBLE = [3000, 6000, 3000]"
definition TAG_MARK :: int where "TAG_MARK = 2000"
definition TAG_SPACE_ZERO :: int where "TAG_SPACE_ZERO = 1000"
definition TAG_SPACE_ONE :: int where "TAG_SPACE_ONE = 2000"
definition TAG_TEAM_BITS :: nat where "TAG_TEAM_BITS = 2"
definition TAG_PLAYER_BITS :: nat where "TAG_PLAYER_BITS = 3"
definition TAG_DAMAGE_BITS :: nat where "TAG_DAMAGE_BITS = 2"
definition TAG_DATA_BITS :: nat where
  "TAG_DATA_BITS = TAG_TEAM_BITS + TAG_PLAYER_BITS + TAG_DAMAGE_BITS"
definition TAG_TOTAL_PULSES :: nat where
  "TAG_TOTAL_PULSES = length TAG_PREAMBLE + TAG_DATA_BITS * 2"

record TagData =
  team :: int
  player :: int
  damage :: int

definition decode_tag_data :: "int list \<Rightarrow> error + TagData" where
  "decode_tag_data data =
     (if length data < 1 then Inl (ValueError ''Expecting 1 byte of tag data.'')
      else (case py_index data 0 of
              Inl e \<Rightarrow> Inl e
            | Inr byte \<Rightarrow>
                Inr \<lparr>team = drop_bit 5 byte AND 3,
                     player = 1 + (drop_bit 2 byte AND 7),
                     damage = 1 + (byte AND 3)\<rparr>))"

definition encode_tag_data :: "TagData \<Rightarrow> error + int list" where
  "encode_tag_data tag_data =
     (if team tag_data < 0 \<or> team tag_data > 3
        then Inl (ValueError ''Team must be between 0 and 3.'')
      else if player tag_data < 1 \<or> player tag_data > 8
        then Inl (ValueError ''Player must be between 1 and 8.'')
      else if damage tag_data < 1 \<or> damage tag_data > 4
        then Inl (ValueError ''Damage must be between 1 and 4.'')
      else (let byte0 = push_bit 5 (team tag_data AND 3);
                byte1 = byte0 OR push_bit 2 ((player tag_data - 1) AND 7);
                byte2 = byte1 OR ((damage tag_data - 1) AND 3)
            in bytearray [byte2]))"

text \<open>\<^verbatim>\<open>TagInfraredDecoder.__init__\<close> and \<^verbatim>\<open>TagInfraredDecoder.decode\<close>.\<close>

definition TagInfraredDecoder_init :: decoder where
  "TagInfraredDecoder_init = InfraredDecoder_init TAG_ERROR_MARGIN"

definition TagInfraredDecoder_decode :: "int \<Rightarrow> decoder \<Rightarrow> error + (int list option \<times> decoder)" where
  "TagInfraredDecoder_decode pulse d =
     (if decoder_state d < int (length TAG_PREAMBLE) then
        (case py_index TAG_PREAMBLE (decoder_state d) of
           Inl e \<Rightarrow> Inl e
         | Inr expected_pulse \<Rightarrow>
             (let (m, d1) = check_pulse pulse expected_pulse d
              in if m then Inr (None, d1\<lparr>decoder_state := decoder_state d1 + 1\<rparr>)
                 else Inr (None, reset TAG_ERROR_MARGIN d1)))
      else if decoder_state d < int TAG_TOTAL_PULSES then
        (let bit_index = decoder_state d - int (length TAG_PREAMBLE)
         in if bit_index mod 2 = 0 then
              (let (m, d1) = check_pulse pulse TAG_MARK d
               in if \<not> m then Inr (None, reset TAG_ERROR_MARGIN d1)
                  else Inr (None, d1\<lparr>decoder_state := decoder_state d1 + 1\<rparr>))
            else
              (let (m1, d1) = check_pulse pulse TAG_SPACE_ONE d
               in if m1 then
                    (case write_bit 1 d1 of
                       Inl e \<Rightarrow> Inl e
                     | Inr d2 \<Rightarrow> Inr (None, d2\<lparr>decoder_state := decoder_state d2 + 1\<rparr>))
                  else
                    (let (m2, d2) = check_pulse pulse TAG_SPACE_ZERO d1
                     in if m2 then
                          (case write_bit 0 d2 of
                             Inl e \<Rightarrow> Inl e
                           | Inr d3 \<Rightarrow> Inr (None, d3\<lparr>decoder_state := decoder_state d3 + 1\<rparr>))
                        else Inr (None, reset TAG_ERROR_MARGIN d2))))
      else if decoder_state d = int TAG_TOTAL_PULSES then
        (case write_bit 0 d of
           Inl e \<Rightarrow> Inl e
         | Inr d1 \<Rightarrow>
             (case py_index (received_data d1) 0 of
                Inl e \<Rightarrow> Inl e
              | Inr b \<Rightarrow>
                  (let tag_data = drop_bit 1 b;
                       d2 = reset (max_error_margin d1) d1
                   in case bytearray [tag_data] of
                        Inl e \<Rightarrow> Inl e
                      | Inr packet \<Rightarrow> Inr (Some packet, d2))))
      else Inr (None, reset TAG_ERROR_MARGIN d))"

text \<open>
  \<^verbatim>\<open>TagInfraredEncoder.encode\<close>: the two loops write into the preallocated array,
  carrying \<^verbatim>\<open>duration_index\<close> and the shifted \<^verbatim>\<open>tag_data\<close>.
\<close>

fun encode_preamble :: "int list \<Rightarrow> int list \<Rightarrow> int \<Rightarrow> error + (int list \<times> int)" where
  "encode_preamble [] durations duration_index = Inr (durations, duration_index)"
| "encode_preamble (pulse # rest) durations duration_index =
     (case array_set durations duration_index pulse of
        Inl e \<Rightarrow> Inl e
      | Inr durations1 \<Rightarrow> encode_preamble rest durations1 (duration_index + 1))"

fun encode_bits :: "nat \<Rightarrow> int \<Rightarrow> int list \<Rightarrow> int \<Rightarrow> error + (int list \<times> int)" where
  "encode_bits 0 tag_data durations duration_index = Inr (durations, duration_index)"
| "encode_bits (Suc n) tag_data durations duration_index =
     (case array_set durations duration_index TAG_MARK of
        Inl e \<Rightarrow> Inl e
      | Inr durations1 \<Rightarrow>
          (case array_set durations1 (duration_index + 1)
                  (if (tag_data AND 0x80) > 0 then TAG_SPACE_ONE else TAG_SPACE_ZERO) of
             Inl e \<Rightarrow> Inl e
           | Inr durations2 \<Rightarrow>
               encode_bits n (push_bit 1 tag_data) durations2 (duration_index + 1 + 1)))"

definition TagInfraredEncoder_encode :: "int list \<Rightarrow> error + int list" where
  "TagInfraredEncoder_encode data =
     (let durations = replicate (length TAG_PREAMBLE + TAG_DATA_BITS * 2) 0
      in case encode_preamble TAG_PREAMBLE durations 0 of
           Inl e \<Rightarrow> Inl e
         | Inr (durations1, duration_index) \<Rightarrow>
             (case py_index data 0 of
                Inl e \<Rightarrow> Inl e
              | Inr tag_data \<Rightarrow>
                  (case encode_bits TAG_DATA_BITS (push_bit 1 tag_data) durations1 duration_index of
                     Inl e \<Rightarrow> Inl e
                   | Inr (durations2, _) \<Rightarrow> Inr durations2)))"

text \<open>
  Feeding pulses one at a time: the decoder's answers to each \<^verbatim>\<open>decode\<close> call, in
  order, and the decoder afterwards. An exception ends the run.
\<close>

fun feed :: "(int \<Rightarrow> decoder \<Rightarrow> error + (int list option \<times> decoder)) \<Rightarrow> decoder \<Rightarrow> int list
              \<Rightarrow> error + (int list option list \<times> decoder)" where
  "feed decode d [] = Inr ([], d)"
| "feed decode d (pulse # rest) =
     (case decode pulse d of
        Inl e \<Rightarrow> Inl e
      | Inr (r, d1) \<Rightarrow>
          (case feed decode d1 rest of
             Inl e \<Rightarrow> Inl e
           | Inr (rs, d2) \<Rightarrow> Inr (r # rs, d2)))"

section \<open>test\_protocol.py: the CRC protocol\<close>

text \<open>
  \<^verbatim>\<open>IR_ERROR_MARGIN = IR_UNIT / 2\<close> is the float 250.0 in the source; it is only compared
  with and stored beside integers, so it is the integer 250 here.
\<close>

definition IR_UNIT :: int where "IR_UNIT = 500"
definition IR_ERROR_MARGIN :: int where "IR_ERROR_MARGIN = 250"
definition IR_HEADER_MARK :: int where "IR_HEADER_MARK = IR_UNIT * 8"
definition IR_HEADER_SPACE :: int where "IR_HEADER_SPACE = IR_UNIT * 6"
definition IR_ZERO :: int where "IR_ZERO = IR_UNIT"
definition IR_ONE :: int where "IR_ONE = IR_UNIT * 3"
definition IR_LEAD_OUT :: int where "IR_LEAD_OUT = IR_UNIT * 10"
definition IR_CRC_GENERATOR :: int where "IR_CRC_GENERATOR = 0x1D"

text \<open>\<^verbatim>\<open>_calculate_crc\<close>: the inner loop over the 8 bits, then the loop over the bytes.\<close>

fun crc_shift :: "nat \<Rightarrow> int \<Rightarrow> int" where
  "crc_shift 0 crc = crc"
| "crc_shift (Suc j) crc =
     crc_shift j (if crc AND 0x80 \<noteq> 0 then (push_bit 1 crc AND 0xFF) XOR IR_CRC_GENERATOR
                  else push_bit 1 crc AND 0xFF)"

fun crc_bytes :: "int \<Rightarrow> int list \<Rightarrow> int" where
  "crc_bytes crc [] = crc"
| "crc_bytes crc (data_byte # rest) = crc_bytes (crc_shift 8 (crc XOR data_byte)) rest"

definition calculate_crc :: "int list \<Rightarrow> int" where
  "calculate_crc data = crc_bytes 0 data"

definition MWDecoder_init :: decoder where
  "MWDecoder_init = InfraredDecoder_init IR_ERROR_MARGIN"

definition MWDecoder_decode :: "int \<Rightarrow> decoder \<Rightarrow> error + (int list option \<times> decoder)" where
  "MWDecoder_decode pulse d =
     (if decoder_state d = 0 then
        (let (m, d1) = check_pulse pulse IR_HEADER_MARK d
         in if m then Inr (None, d1\<lparr>decoder_state := 1\<rparr>) else Inr (None, d1))
      else if decoder_state d = 1 then
        (let (m, d1) = check_pulse pulse IR_HEADER_SPACE d
         in if m then Inr (None, d1\<lparr>decoder_state := 2\<rparr>)
            else Inr (None, reset IR_ERROR_MARGIN d1))
      else if decoder_state d = 2 then
        (let (m1, d1) = check_pulse pulse IR_ONE d
         in if m1 then
              (case write_bit 1 d1 of Inl e \<Rightarrow> Inl e | Inr d2 \<Rightarrow> Inr (None, d2))
            else
              (let (m2, d2) = check_pulse pulse IR_ZERO d1
               in if m2 then
                    (case write_bit 0 d2 of Inl e \<Rightarrow> Inl e | Inr d3 \<Rightarrow> Inr (None, d3))
                  else
                    (let (m3, d3) = check_pulse pulse IR_LEAD_OUT d2
                     in if m3 then
                          (let data = received_data d3
                           in if length data < 2 then Inr (None, reset IR_ERROR_MARGIN d3)
                              else
                                (case py_index data (- 1) of
                                   Inl e \<Rightarrow> Inl e
                                 | Inr received_crc \<Rightarrow>
                                     (let data_without_crc = take (length data - 1) data;
                                          calculated_crc = calculate_crc data_without_crc;
                                          d4 = reset (max_error_margin d3) d3
                                      in if received_crc = calculated_crc
                                         then Inr (Some data_without_crc, d4)
                                         else Inr (None, d4))))
                        else Inr (None, reset IR_ERROR_MARGIN d3))))
      else Inr (None, d))"

section \<open>infrared.py and circuitpython.py: the receivers\<close>

text \<open>
  \<^verbatim>\<open>PulseInReader.read_pulse\<close>: a reader is the queue of pulses it still holds; reading
  pops the oldest one, or answers \<^verbatim>\<open>None\<close> on an empty queue.
\<close>

definition read_pulse :: "int list \<Rightarrow> int option \<times> int list" where
  "read_pulse pulsein = (case pulsein of [] \<Rightarrow> (None, []) | p # rest \<Rightarrow> (Some p, rest))"

text \<open>
  \<^verbatim>\<open>InfraredMultiReceiver\<close>. The decoder class is a parameter of the receiver
  (\<^verbatim>\<open>decoder_factory\<close>): here the factory is the fresh decoder it returns, and the
  \<^verbatim>\<open>decode\<close> method of that class is passed to \<open>receive\<close>. An exception ends
  the call; what the receiver holds at that moment is not kept.
\<close>

record multi_receiver =
  pulse_readers :: "(string \<times> int list) list"
  decoders :: "(string \<times> decoder) list"
  last_error_margins :: "(string \<times> int) list"
  last_signal_strengths :: "(string \<times> rat) list"

definition InfraredMultiReceiver_init :: "(string \<times> int list) list \<Rightarrow> decoder \<Rightarrow> multi_receiver" where
  "InfraredMultiReceiver_init readers decoder_factory =
     \<lparr>pulse_readers = readers,
      decoders = map (\<lambda>(name, _). (name, decoder_factory)) readers,
      last_error_margins = [],
      last_signal_strengths = []\<rparr>"

text \<open>The first loop of a round: one pulse from every reader that has one.\<close>

fun read_pulses :: "(string \<times> int list) list \<Rightarrow> (string \<times> int) list
                     \<Rightarrow> (string \<times> int) list \<times> (string \<times> int list) list" where
  "read_pulses [] pulses = (pulses, [])"
| "read_pulses ((name, pulse_reader) # rest) pulses =
     (let (next_pulse, pulse_reader1) = read_pulse pulse_reader;
          pulses1 = (case next_pulse of None \<Rightarrow> pulses | Some p \<Rightarrow> dict_set pulses name p);
          (pulses2, rest1) = read_pulses rest pulses1
      in (pulses2, (name, pulse_reader1) # rest1))"

text \<open>The second loop: each pulse goes to the decoder of its sensor.\<close>

fun decode_pulses :: "(int \<Rightarrow> decoder \<Rightarrow> error + (int list option \<times> decoder))
                       \<Rightarrow> (string \<times> int) list \<Rightarrow> (string \<times> decoder) list
                       \<Rightarrow> (string \<times> int list) list
                       \<Rightarrow> error + ((string \<times> int list) list \<times> (string \<times> decoder) list)" where
  "decode_pulses decode [] decs datas = Inr (datas, decs)"
| "decode_pulses decode ((name, pulse) # rest) decs datas =
     (case map_of decs name of
        None \<Rightarrow> Inl KeyError
      | Some dec \<Rightarrow>
          (case decode pulse dec of
             Inl e \<Rightarrow> Inl e
           | Inr (data, dec1) \<Rightarrow>
               decode_pulses decode rest (dict_set decs name dec1)
                 (case data of None \<Rightarrow> datas | Some bs \<Rightarrow> dict_set datas name bs)))"

text \<open>Recording the statistics of the sensors that have data.\<close>

fun record_stats :: "(string \<times> decoder) list \<Rightarrow> (string \<times> int list) list
                      \<Rightarrow> (string \<times> int) list \<Rightarrow> (string \<times> rat) list
                      \<Rightarrow> error + ((string \<times> int) list \<times> (string \<times> rat) list)" where
  "record_stats [] datas margins strengths = Inr (margins, strengths)"
| "record_stats ((name, dec) # rest) datas margins strengths =
     (if map_of datas name \<noteq> None then
        (case last_signal_strength dec of
           Inl e \<Rightarrow> Inl e
         | Inr strength \<Rightarrow>
             record_stats rest datas (dict_set margins name (last_error_margin dec))
               (dict_set strengths name strength))
      else record_stats rest datas margins strengths)"

text \<open>
  The scan for the smallest margin, shared by \<^verbatim>\<open>receive\<close> and
  \<^verbatim>\<open>last_best_receiver\<close>; \<^verbatim>\<open>float("inf")\<close> is \<open>None\<close>.
\<close>

fun best_receiver_scan :: "(string \<times> int) list \<Rightarrow> int option \<Rightarrow> string option \<Rightarrow> string option" where
  "best_receiver_scan [] min_error_margin best_receiver_name = best_receiver_name"
| "best_receiver_scan ((name, error_margin) # rest) min_error_margin best_receiver_name =
     (if (case min_error_margin of None \<Rightarrow> True | Some m \<Rightarrow> error_margin < m)
      then best_receiver_scan rest (Some error_margin) (Some name)
      else best_receiver_scan rest min_error_margin best_receiver_name)"

definition last_best_receiver :: "multi_receiver \<Rightarrow> string option" where
  "last_best_receiver r = best_receiver_scan (last_error_margins r) None None"

definition reset_decoders :: "(string \<times> decoder) list \<Rightarrow> (string \<times> decoder) list" where
  "reset_decoders decs = map (\<lambda>(name, dec). (name, reset (last_error_margin dec) dec)) decs"

text \<open>One pass through the body of the \<^verbatim>\<open>while\<close> loop of \<^verbatim>\<open>receive\<close>.\<close>

datatype round_result = NoPulses | NoPacket | Packet "int list"

definition receive_round :: "(int \<Rightarrow> decoder \<Rightarrow> error + (int list option \<times> decoder))
                       \<Rightarrow> multi_receiver \<Rightarrow> error + (round_result \<times> multi_receiver)" where
  "receive_round decode r =
     (let (pulses, readers1) = read_pulses (pulse_readers r) [];
          r1 = r\<lparr>pulse_readers := readers1\<rparr>
      in if length pulses = 0 then Inr (NoPulses, r1)
         else
           (case decode_pulses decode pulses (decoders r1) [] of
              Inl e \<Rightarrow> Inl e
            | Inr (datas, decs1) \<Rightarrow>
                (let r2 = r1\<lparr>decoders := decs1\<rparr>
                 in if length datas > 0 then
                      (case record_stats (decoders r2) datas [] [] of
                         Inl e \<Rightarrow> Inl e
                       | Inr (margins, strengths) \<Rightarrow>
                           (let r3 = r2\<lparr>last_error_margins := margins,
                                        last_signal_strengths := strengths\<rparr>;
                                best_receiver_name = best_receiver_scan (last_error_margins r3) None None;
                                r4 = r3\<lparr>decoders := reset_decoders (decoders r3)\<rparr>
                            in case best_receiver_name of
                                 None \<Rightarrow> Inl KeyError
                               | Some name \<Rightarrow>
                                   (case map_of datas name of
                                      None \<Rightarrow> Inl KeyError
                                    | Some data \<Rightarrow> Inr (Packet data, r4))))
                    else Inr (NoPacket, r2))))"

definition pending_pulses :: "multi_receiver \<Rightarrow> nat" where
  "pending_pulses r = sum_list (map (\<lambda>(name, pulse_reader). length pulse_reader) (pulse_readers r))"

lemma read_pulses_pending:
  "read_pulses readers pulses = (pulses1, readers1) \<Longrightarrow>
     sum_list (map (\<lambda>(name, q). length q) readers1) \<le> sum_list (map (\<lambda>(name, q). length q) readers)
     \<and> (sum_list (map (\<lambda>(name, q). length q) readers1) = sum_list (map (\<lambda>(name, q). length q) readers)
          \<longrightarrow> pulses1 = pulses)"
proof (induction readers pulses arbitrary: pulses1 readers1 rule: read_pulses.induct)
  case (1 pulses)
  then show ?case by simp
next
  case (2 name pulse_reader rest pulses)
  show ?case
  proof (cases pulse_reader)
    case Nil
    with 2 show ?thesis
      by (auto simp: read_pulse_def split: prod.splits)
  next
    case (Cons p q)
    with 2 show ?thesis
      by (fastforce simp: read_pulse_def split: prod.splits)
  qed
qed

lemma receive_round_pending:
  assumes "receive_round decode r = Inr (NoPacket, r1)"
  shows "pending_pulses r1 < pending_pulses r"
proof -
  obtain pulses readers1 where rp: "read_pulses (pulse_readers r) [] = (pulses, readers1)"
    by (cases "read_pulses (pulse_readers r) []")
  from assms rp have ne: "pulses \<noteq> []" and r1: "pulse_readers r1 = readers1"
    by (auto simp: receive_round_def Let_def split: if_splits sum.splits prod.splits option.splits)
  from read_pulses_pending [OF rp] ne r1 show ?thesis
    by (auto simp: pending_pulses_def)
qed

text \<open>\<^verbatim>\<open>InfraredMultiReceiver.receive\<close>: rounds until a packet or no pulse is left.\<close>

function receive :: "(int \<Rightarrow> decoder \<Rightarrow> error + (int list option \<times> decoder))
                      \<Rightarrow> multi_receiver \<Rightarrow> error + (int list option \<times> multi_receiver)" where
  "receive decode r =
     (case receive_round decode r of
        Inl e \<Rightarrow> Inl e
      | Inr (NoPulses, r1) \<Rightarrow> Inr (None, r1)
      | Inr (Packet data, r1) \<Rightarrow> Inr (Some data, r1)
      | Inr (NoPacket, r1) \<Rightarrow> receive decode r1)"
  by pat_completeness auto
termination
  by (relation "measure (\<lambda>(decode, r). pending_pulses r)") (auto simp: receive_round_pending)

section \<open>Vocabulary of the statements about the CRC protocol\<close>

text \<open>
  The CRC as the specification words it: a CRC-8 with a generator polynomial, computed
  byte-wise on 8-bit words by shifting left and XOR-ing the polynomial in when the top bit
  is shifted out. It is compared with \<open>calculate_crc\<close> below.
\<close>

fun crc8_shift :: "8 word \<Rightarrow> nat \<Rightarrow> 8 word \<Rightarrow> 8 word" where
  "crc8_shift poly 0 crc = crc"
| "crc8_shift poly (Suc n) crc =
     crc8_shift poly n (if bit crc 7 then push_bit 1 crc XOR poly else push_bit 1 crc)"

fun crc8 :: "8 word \<Rightarrow> 8 word \<Rightarrow> 8 word list \<Rightarrow> 8 word" where
  "crc8 poly crc [] = crc"
| "crc8 poly crc (b # bs) = crc8 poly (crc8_shift poly 8 (crc XOR b)) bs"

text \<open>A CRC decoder in the data state that has collected the given bytes.\<close>

definition mw_state :: "int list \<Rightarrow> decoder" where
  "mw_state data = (reset 0 MWDecoder_init)\<lparr>decoder_state := 2, received_data := data\<rparr>"

section \<open>Vocabulary of the statements about the tag protocol\<close>

text \<open>The space that encodes a bit.\<close>

definition tag_space :: "bool \<Rightarrow> int" where
  "tag_space c = (if c then TAG_SPACE_ONE else TAG_SPACE_ZERO)"

text \<open>A tag decoder (threshold 500) with no margin accumulated in the current packet.\<close>

definition tag_decoder :: "int \<Rightarrow> int list \<Rightarrow> int \<Rightarrow> int \<Rightarrow> int \<Rightarrow> decoder" where
  "tag_decoder s ds i B e =
     \<lparr>error_threshold = 500, decoder_state = s, received_data = ds, received_bit_index = i,
      received_byte = B, max_error_margin = 0, last_error_margin = e\<rparr>"

text \<open>
  The tag decoder with \<open>m\<close> of the 7 payload bits of \<open>v\<close> still to come: the bits
  received so far sit at the top of the accumulator.
\<close>

definition tag_progress :: "int \<Rightarrow> nat \<Rightarrow> int \<Rightarrow> decoder" where
  "tag_progress v m e =
     tag_decoder (17 - 2 * int m) [] (int m) (push_bit (Suc m) (drop_bit m v)) e"

text \<open>The pulses of the byte 0x52 (team 2, player 5, damage 3).\<close>

definition tag_pulses_52 :: "int list" where
  "tag_pulses_52 = [3000, 6000, 3000, 2000, 2000, 2000, 1000, 2000, 2000, 2000, 1000,
      2000, 1000, 2000, 2000, 2000, 1000]"

text \<open>The received data is a \<^verbatim>\<open>bytearray\<close>: every element is a byte.\<close>

definition bytes_ok :: "decoder \<Rightarrow> bool" where
  "bytes_ok d \<longleftrightarrow> list_all is_byte (received_data d)"

section \<open>Vocabulary of the statements about the multi-sensor receiver\<close>

text \<open>The pulse at the head of each non-empty reader, in the order of the readers.\<close>

fun queued :: "(string \<times> int list) list \<Rightarrow> (string \<times> int) list" where
  "queued [] = []"
| "queued ((name, []) # rest) = queued rest"
| "queued ((name, p # q) # rest) = (name, p) # queued rest"

text \<open>The sensors whose decoder returned a packet in the round, in the order of the decoders.\<close>

definition completed :: "(string \<times> int list) list \<Rightarrow> (string \<times> decoder) list \<Rightarrow> (string \<times> decoder) list" where
  "completed datas decs = filter (\<lambda>(name, dec). map_of datas name \<noteq> None) decs"

text \<open>
  A tag decoder that has received all 17 pulses of a payload with the given largest margin
  and returns its packet on the next pulse.
\<close>

definition closing_decoder :: "int \<Rightarrow> int \<Rightarrow> decoder" where
  "closing_decoder payload margin =
     \<lparr>error_threshold = 500, decoder_state = 17, received_data = [], received_bit_index = 0,
      received_byte = push_bit 1 payload, max_error_margin = margin, last_error_margin = 0\<rparr>"

text \<open>Two sensors about to complete in the same round, and one without pulses.\<close>

definition arbitration_example :: multi_receiver where
  "arbitration_example =
     \<lparr>pulse_readers = [(''Left'', [2000]), (''NA'', []), (''Right'', [2000, 1, 2])],
      decoders = [(''Left'', closing_decoder 0x51 40), (''NA'', TagInfraredDecoder_init),
                  (''Right'', closing_decoder 0x53 10)],
      last_error_margins = [],
      last_signal_strengths = []\<rparr>"

text \<open>
  Two sensors hearing a whole transmission, one with a deviation of 40 in one pulse and one
  with a deviation of 10, on decoders that have been reset.
\<close>

definition two_sensor_receiver :: multi_receiver where
  "two_sensor_receiver =
     InfraredMultiReceiver_init
       [(''Left'', [3000, 6000, 3000, 2000, 2040, 2000, 1000, 2000, 2000, 2000, 1000,
                    2000, 1000, 2000, 1000, 2000, 2000, 3000]),
        (''NA'', []),
        (''Right'', [3010, 6000, 3000, 2000, 2000, 2000, 1000, 2000, 2000, 2000, 1000,
                     2000, 1000, 2000, 2000, 2000, 2000, 3000, 6000])]
       (reset 0 TagInfraredDecoder_init)"

section \<open>The states a tag decoder can reach\<close>

text \<open>
  The number of payload bits the tag decoder has taken in at a given state, and the states a
  tag decoder can be in: the bit writer either runs from index 7 with no byte stored yet, or
  is that of a freshly constructed decoder, which starts at index 0 and stores its first bit
  as a byte of its own.
\<close>

definition bits_done :: "int \<Rightarrow> int" where
  "bits_done s = (if s \<le> 3 then 0 else (s - 3) div 2)"

definition tag_inv :: "decoder \<Rightarrow> bool" where
  "tag_inv d \<longleftrightarrow>
     0 \<le> decoder_state d \<and> decoder_state d \<le> 17 \<and> is_byte (received_byte d) \<and> bytes_ok d
     \<and> (received_data d = [] \<and> received_bit_index d = 7 - bits_done (decoder_state d)
        \<or> received_data d = [] \<and> received_bit_index d = 0 \<and> decoder_state d \<le> 4
        \<or> received_data d \<noteq> [] \<and> received_bit_index d = 8 - bits_done (decoder_state d)
            \<and> 5 \<le> decoder_state d)"

section \<open>The pulse matcher\<close>

text \<open>
  C3. \<^verbatim>\<open>check_pulse\<close> answers true exactly when the absolute deviation is below the
  threshold: a deviation of threshold - 1 matches, a deviation of exactly the threshold
  does not. On a match the largest margin becomes the maximum of its old value and the
  deviation; on a mismatch the decoder is left as it was.
\<close>

theorem check_pulse_spec:
  "(fst (check_pulse observed expected d) \<longleftrightarrow> \<bar>observed - expected\<bar> < error_threshold d)
   \<and> (\<bar>observed - expected\<bar> = error_threshold d - 1 \<longrightarrow> fst (check_pulse observed expected d))
   \<and> (\<bar>observed - expected\<bar> = error_threshold d \<longrightarrow> \<not> fst (check_pulse observed expected d))
   \<and> (fst (check_pulse observed expected d) \<longrightarrow>
        snd (check_pulse observed expected d) =
          d\<lparr>max_error_margin := max (max_error_margin d) \<bar>observed - expected\<bar>\<rparr>)
   \<and> (\<not> fst (check_pulse observed expected d) \<longrightarrow>
        snd (check_pulse observed expected d) = d)"
  by (simp add: check_pulse_def Let_def)

theorem check_pulse_spec_witness:
  "fst (check_pulse 2499 2000 (InfraredDecoder_init 500))
   \<and> max_error_margin (snd (check_pulse 2499 2000 (InfraredDecoder_init 500))) = 499
   \<and> \<not> fst (check_pulse 2500 2000 (InfraredDecoder_init 500))
   \<and> snd (check_pulse 2500 2000 (InfraredDecoder_init 500)) = InfraredDecoder_init 500"
  using check_pulse_spec [of 2499 2000 "InfraredDecoder_init 500"]
        check_pulse_spec [of 2500 2000 "InfraredDecoder_init 500"]
  by (simp add: InfraredDecoder_init_def)

section \<open>The bit writer\<close>

text \<open>
  With the bit index in \<open>0..7\<close> and a byte in the accumulator, \<^verbatim>\<open>write_bit\<close> puts the
  bit at the index, most significant bit first, and steps the index down; after index 0
  the byte is appended to the received data and the writer starts again at index 7.
\<close>

lemma write_bit_in_byte:
  assumes "0 \<le> received_bit_index d" "received_bit_index d \<le> 7" "is_byte (received_byte d)"
    and "b = 0 \<or> b = 1"
  shows "write_bit b d =
     Inr (if received_bit_index d = 0
          then d\<lparr>received_data := received_data d @ [received_byte d OR push_bit (nat (received_bit_index d)) b],
                 received_byte := 0, received_bit_index := 7\<rparr>
          else d\<lparr>received_byte := received_byte d OR push_bit (nat (received_bit_index d)) b,
                 received_bit_index := received_bit_index d - 1\<rparr>)"
proof -
  have "(2::int) ^ nat (received_bit_index d) \<le> 2 ^ 7"
    using assms by (intro power_increasing) auto
  then have "push_bit (nat (received_bit_index d)) (1::int) < 2 ^ 8"
    by (simp add: push_bit_eq_mult)
  moreover have "received_byte d < 2 ^ 8" "0 \<le> received_byte d"
    using assms by (simp_all add: is_byte_def)
  ultimately have "received_byte d OR push_bit (nat (received_bit_index d)) 1 < 2 ^ 8"
    by (intro OR_upper) auto
  then have "is_byte (received_byte d OR push_bit (nat (received_bit_index d)) 1)"
    using \<open>0 \<le> received_byte d\<close> by (simp add: is_byte_def)
  then show ?thesis using assms
    by (auto simp: write_bit_def py_lshift_def bytearray_append_def reset_bit_writer_def Let_def)
qed

text \<open>
  C2. The bit writer behaves as described from index 7, but a freshly constructed decoder
  does not start there: \<^verbatim>\<open>__init__\<close> sets the bit index to 0, while its own comment
  (``7 to 0'') and \<^verbatim>\<open>_reset_bit_writer\<close> say 7. The first bit written to a fresh
  decoder lands at position 0 and is appended at once as a byte of its own.
\<close>

theorem fresh_decoder_write_bit:
  "received_bit_index (InfraredDecoder_init t) = 0
   \<and> write_bit 1 (InfraredDecoder_init t) =
       Inr ((InfraredDecoder_init t)\<lparr>received_data := [1], received_bit_index := 7\<rparr>)
   \<and> received_bit_index (reset_bit_writer (InfraredDecoder_init t)) = 7"
  by (simp add: InfraredDecoder_init_def write_bit_def py_lshift_def bytearray_append_def
      is_byte_def reset_bit_writer_def)

section \<open>Rounding to binary64\<close>

lemma float_1_3_value: "float_1_3 = 5854679515581645 / 4503599627370496"
  unfolding float_1_3_def by code_simp

lemma round_half_even_le: "x \<le> of_int N \<Longrightarrow> round_half_even x \<le> N"
proof -
  assume le: "x \<le> of_int N"
  show ?thesis
  proof (cases "x = of_int N")
    case True
    then show ?thesis by (simp add: round_half_even_def)
  next
    case False
    with le have "x < of_int N" by simp
    then have "\<lfloor>x\<rfloor> < N" by (simp add: floor_less_iff)
    then show ?thesis by (simp add: round_half_even_def Let_def)
  qed
qed

lemma round_half_even_nonneg: "0 \<le> x \<Longrightarrow> 0 \<le> round_half_even x"
proof -
  assume "0 \<le> x"
  then have "0 \<le> \<lfloor>x\<rfloor>" by simp
  then show ?thesis by (simp add: round_half_even_def Let_def)
qed

lemma round_half_even_ge: "of_int N \<le> x \<Longrightarrow> N \<le> round_half_even x"
proof -
  assume "of_int N \<le> x"
  then have "N \<le> \<lfloor>x\<rfloor>" by (simp add: le_floor_iff)
  then show ?thesis by (simp add: round_half_even_def Let_def)
qed

lemma round_half_even_below_half:
  assumes "x < of_int N + 1 / 2"
  shows "round_half_even x \<le> N"
proof (cases "\<lfloor>x\<rfloor> < N")
  case True
  then show ?thesis by (simp add: round_half_even_def Let_def)
next
  case False
  have "x < of_int (N + 1)" using assms by simp
  then have "\<lfloor>x\<rfloor> < N + 1" by (simp only: floor_less_iff)
  with False have f: "\<lfloor>x\<rfloor> = N" by simp
  then have "x - of_int \<lfloor>x\<rfloor> < 1 / 2" using assms by simp
  then show ?thesis using f by (simp add: round_half_even_def Let_def)
qed

lemma powi_less_imp_le:
  fixes i j :: int
  assumes "(2::rat) powi i < 2 powi (j + 1)"
  shows "i \<le> j"
proof (rule ccontr)
  assume "\<not> i \<le> j"
  then have "j + 1 \<le> i" by simp
  then have "(2::rat) powi (j + 1) \<le> 2 powi i" by (intro power_int_increasing) auto
  with assms show False by simp
qed

lemma floor_log2_bounds:
  assumes "0 < a"
  shows "2 powi (floor_log2 a) \<le> a" and "a < 2 powi (floor_log2 a + 1)"
proof -
  obtain n d where q: "quotient_of a = (n, d)" by (cases "quotient_of a")
  then have a: "a = of_int n / of_int d" and d: "0 < d"
    by (simp_all add: quotient_of_div quotient_of_denom_pos)
  from assms a d have n: "0 < n" by (simp add: zero_less_divide_iff)
  let ?e = "bitlen n - bitlen d"
  have bn: "1 \<le> bitlen n" and bd: "1 \<le> bitlen d"
    using n d bitlen_eq_zero_iff [of n] bitlen_eq_zero_iff [of d] bitlen_nonneg [of n]
      bitlen_nonneg [of d] by linarith+
  have bnd: "(2::int) ^ nat (bitlen n - 1) \<le> n" "n < 2 ^ nat (bitlen n)"
    "(2::int) ^ nat (bitlen d - 1) \<le> d" "d < 2 ^ nat (bitlen d)"
    using bitlen_bounds [OF n] bitlen_bounds [OF d] by auto
  have conv: "(2::rat) powi i = of_int ((2::int) ^ nat i)" if "0 \<le> i" for i
    using that by (simp add: power_int_def)
  have "(of_int ((2::int) ^ nat (bitlen n - 1)) :: rat) \<le> of_int n"
    using bnd(1) by (simp only: of_int_le_iff)
  then have ln: "(2::rat) powi (bitlen n - 1) \<le> of_int n" using bn by (simp only: conv)
  have "(of_int n :: rat) < of_int ((2::int) ^ nat (bitlen n))"
    using bnd(2) by (simp only: of_int_less_iff)
  then have un: "of_int n < (2::rat) powi bitlen n" using bn by (simp only: conv)
  have "(of_int ((2::int) ^ nat (bitlen d - 1)) :: rat) \<le> of_int d"
    using bnd(3) by (simp only: of_int_le_iff)
  then have ld: "(2::rat) powi (bitlen d - 1) \<le> of_int d" using bd by (simp only: conv)
  have "(of_int d :: rat) < of_int ((2::int) ^ nat (bitlen d))"
    using bnd(4) by (simp only: of_int_less_iff)
  then have ud: "of_int d < (2::rat) powi bitlen d" using bd by (simp only: conv)
  have low: "(2::rat) powi (?e - 1) \<le> a"
  proof -
    have "(2::rat) powi (?e - 1) = 2 powi (bitlen n - 1) / 2 powi bitlen d"
      by (simp add: power_int_diff)
    also have "\<dots> \<le> of_int n / 2 powi bitlen d"
      using ln by (simp add: divide_right_mono)
    also have "\<dots> \<le> of_int n / of_int d"
      using ud n d by (simp add: divide_left_mono)
    finally show ?thesis using a by simp
  qed
  have high: "a < (2::rat) powi (?e + 1)"
  proof -
    have "a = of_int n / of_int d" by (fact a)
    also have "\<dots> < 2 powi bitlen n / of_int d"
      using un d by (simp add: divide_strict_right_mono)
    also have "\<dots> \<le> 2 powi bitlen n / 2 powi (bitlen d - 1)"
      using ld by (intro frac_le) simp_all
    also have "\<dots> = 2 powi (bitlen n - (bitlen d - 1))"
      by (rule power_int_diff [symmetric]) simp
    also have "bitlen n - (bitlen d - 1) = ?e + 1" by simp
    finally show ?thesis .
  qed
  show "2 powi (floor_log2 a) \<le> a"
    using low q by (simp add: floor_log2_def Let_def)
  show "a < 2 powi (floor_log2 a + 1)"
    using high q by (simp add: floor_log2_def Let_def not_le)
qed

lemma floor_log2_le:
  assumes "0 < a" and "a < 2 powi (k + 1)"
  shows "floor_log2 a \<le> k"
proof -
  have "2 powi (floor_log2 a) \<le> a" using assms(1) by (rule floor_log2_bounds)
  with assms(2) have "(2::rat) powi (floor_log2 a) < 2 powi (k + 1)" by simp
  then show ?thesis by (rule powi_less_imp_le)
qed

lemma floor_log2_ge:
  assumes "0 < a" and "2 powi k \<le> a"
  shows "k \<le> floor_log2 a"
proof -
  have "a < 2 powi (floor_log2 a + 1)" using assms(1) by (rule floor_log2_bounds)
  with assms(2) have "(2::rat) powi k < 2 powi (floor_log2 a + 1)" by simp
  then show ?thesis by (rule powi_less_imp_le)
qed

lemma round_to_double_minus: "round_to_double (- q) = - round_to_double q"
  by (simp add: round_to_double_def Let_def)

lemma round_to_double_nonneg: "0 \<le> q \<Longrightarrow> 0 \<le> round_to_double q"
  by (simp add: round_to_double_def Let_def round_half_even_nonneg)

lemma round_to_double_abs: "\<bar>round_to_double q\<bar> = round_to_double \<bar>q\<bar>"
proof (cases "0 \<le> q")
  case True
  then show ?thesis using round_to_double_nonneg [of q] by simp
next
  case False
  then have "\<bar>q\<bar> = - q" by simp
  then show ?thesis
    using round_to_double_nonneg [of "- q"] False by (simp add: round_to_double_minus)
qed

lemma round_to_double_pos:
  "0 < a \<Longrightarrow>
     round_to_double a =
       of_int (round_half_even (a / 2 powi (max (floor_log2 a) (- 1022) - 52)))
         * 2 powi (max (floor_log2 a) (- 1022) - 52)"
  by (simp add: round_to_double_def Let_def)

lemma round_to_double_le:
  assumes "0 < a" and "a \<le> y"
    and "y = of_int N * 2 powi (max (floor_log2 a) (- 1022) - 52)"
  shows "round_to_double a \<le> y"
proof -
  let ?p = "max (floor_log2 a) (- 1022) - 52"
  have pos: "(0::rat) < 2 powi ?p" by simp
  have "a / 2 powi ?p \<le> y / 2 powi ?p"
    using assms(2) pos by (simp add: divide_right_mono)
  also have "y / 2 powi ?p = of_int N" using assms(3) by simp
  finally have "round_half_even (a / 2 powi ?p) \<le> N" by (rule round_half_even_le)
  then have "(of_int (round_half_even (a / 2 powi ?p)) :: rat) \<le> of_int N" by simp
  then have "of_int (round_half_even (a / 2 powi ?p)) * 2 powi ?p \<le> of_int N * (2::rat) powi ?p"
    using pos by (simp add: mult_right_mono)
  then show ?thesis using assms(1,3) by (simp add: round_to_double_def Let_def)
qed

lemma round_to_double_le_1_3:
  assumes "0 \<le> q" and "q \<le> 13 / 10"
  shows "round_to_double q \<le> float_1_3"
proof (cases "q = 0")
  case True
  then show ?thesis by (simp add: round_to_double_def float_1_3_value)
next
  case False
  then have pos: "0 < q" using assms(1) by simp
  have "q < 2 powi (0 + 1)" using assms(2) by simp
  with pos have e: "floor_log2 q \<le> 0" by (rule floor_log2_le)
  let ?p = "max (floor_log2 q) (- 1022) - 52"
  have p: "?p \<le> - 52" using e by simp
  have "q \<le> float_1_3" using assms(2) by (simp add: float_1_3_value)
  moreover have "float_1_3 = of_int (5854679515581645 * 2 ^ nat (- 52 - ?p)) * 2 powi ?p"
  proof -
    have "(2::rat) ^ nat (- 52 - ?p) = 2 powi (- 52 - ?p)"
      using p by (simp add: power_int_def)
    then have "of_int (5854679515581645 * 2 ^ nat (- 52 - ?p)) * (2::rat) powi ?p
        = 5854679515581645 * (2 powi (- 52 - ?p) * 2 powi ?p)"
      by simp
    also have "(2::rat) powi (- 52 - ?p) * 2 powi ?p = 2 powi (- 52)"
      by (simp flip: power_int_add)
    also have "5854679515581645 * (2::rat) powi (- 52) = float_1_3"
      by code_simp
    finally show ?thesis by simp
  qed
  ultimately show ?thesis using pos by (intro round_to_double_le)
qed

lemma round_to_double_bound:
  assumes "\<bar>q\<bar> \<le> 2 powi 1023"
  shows "\<bar>round_to_double q\<bar> \<le> 2 powi 1023"
proof (cases "q = 0")
  case True
  then show ?thesis by (simp add: round_to_double_def)
next
  case False
  let ?a = "\<bar>q\<bar>"
  have pos: "0 < ?a" using False by simp
  have "(2::rat) powi 1023 < 2 powi (1023 + 1)" by (intro power_int_strict_increasing) auto
  with assms have "?a < 2 powi (1023 + 1)" by simp
  with pos have e: "floor_log2 ?a \<le> 1023" by (rule floor_log2_le)
  let ?p = "max (floor_log2 ?a) (- 1022) - 52"
  have p: "?p \<le> 1023" using e by simp
  have "(2::rat) powi 1023 = of_int (2 ^ nat (1023 - ?p)) * 2 powi ?p"
  proof -
    have "(2::rat) ^ nat (1023 - ?p) = 2 powi (1023 - ?p)"
      using p by (simp add: power_int_def)
    then have "of_int (2 ^ nat (1023 - ?p)) * (2::rat) powi ?p = 2 powi (1023 - ?p) * 2 powi ?p"
      by simp
    also have "\<dots> = 2 powi 1023" by (simp flip: power_int_add)
    finally show ?thesis by simp
  qed
  with pos assms have "round_to_double ?a \<le> 2 powi 1023" by (intro round_to_double_le)
  moreover have "\<bar>round_to_double q\<bar> = round_to_double ?a"
  proof (cases "0 \<le> q")
    case True
    then show ?thesis using round_to_double_nonneg [of q] by simp
  next
    case False
    then have "?a = - q" by simp
    then show ?thesis
      using round_to_double_nonneg [of "- q"] False by (simp add: round_to_double_minus)
  qed
  ultimately show ?thesis by simp
qed

lemma round_to_double_overflow:
  assumes "2 powi 1024 \<le> \<bar>q\<bar>"
  shows "2 powi 1024 \<le> \<bar>round_to_double q\<bar>"
proof -
  let ?a = "\<bar>q\<bar>"
  have "(0::rat) < 2 powi 1024" by simp
  from this assms have pos: "0 < ?a" by (rule less_le_trans)
  let ?fl = "floor_log2 ?a"
  have fl: "1024 \<le> ?fl" using pos assms by (rule floor_log2_ge)
  then have p: "max ?fl (- 1022) - 52 = ?fl - 52" by simp
  have lower: "2 powi ?fl \<le> ?a" using pos by (rule floor_log2_bounds)
  have "(2::rat) powi 52 = 2 powi ?fl / 2 powi (?fl - 52)"
    by (simp add: power_int_diff)
  also have "\<dots> \<le> ?a / 2 powi (?fl - 52)"
    using lower by (simp add: divide_right_mono)
  finally have "(of_int (2 ^ 52) :: rat) \<le> ?a / 2 powi (?fl - 52)"
    by (simp add: power_int_def)
  then have "2 ^ 52 \<le> round_half_even (?a / 2 powi (?fl - 52))"
    by (rule round_half_even_ge)
  then have "(of_int (2 ^ 52) :: rat) \<le> of_int (round_half_even (?a / 2 powi (?fl - 52)))"
    by (simp only: of_int_le_iff)
  then have "(of_int (2 ^ 52) :: rat) * 2 powi (?fl - 52)
      \<le> of_int (round_half_even (?a / 2 powi (?fl - 52))) * 2 powi (?fl - 52)"
    by (intro mult_right_mono) simp_all
  also have "\<dots> = round_to_double ?a"
    using round_to_double_pos [OF pos] by (simp only: p)
  finally have "(of_int (2 ^ 52) :: rat) * 2 powi (?fl - 52) \<le> \<bar>round_to_double q\<bar>"
    by (simp only: round_to_double_abs)
  moreover have "(of_int (2 ^ 52) :: rat) * 2 powi (?fl - 52) = 2 powi ?fl"
  proof -
    have "(of_int (2 ^ 52) :: rat) = 2 powi 52" by (simp add: power_int_def)
    then have "(of_int (2 ^ 52) :: rat) * 2 powi (?fl - 52) = 2 powi 52 * 2 powi (?fl - 52)"
      by (simp only:)
    also have "\<dots> = 2 powi (52 + (?fl - 52))"
      by (rule power_int_add [symmetric]) simp
    also have "52 + (?fl - 52) = ?fl" by simp
    finally show ?thesis .
  qed
  moreover have "(2::rat) powi 1024 \<le> 2 powi ?fl"
    using fl by (intro power_int_increasing) auto
  ultimately show ?thesis by (simp only:)
qed

lemma max_double_bounds:
  "2 powi 1023 \<le> max_double" "max_double < 2 powi 1024"
  "max_double + 2 powi 970 < 2 powi 1024"
proof -
  have e: "(2::rat) powi 1023 = 2 ^ 52 * 2 powi 971" "(2::rat) powi 1024 = 2 ^ 53 * 2 powi 971"
    "(2::rat) powi 970 = (1 / 2) * 2 powi 971"
    by (simp_all add: power_int_def)
  have pos: "(0::rat) < 2 powi 971" by simp
  have "(2::rat) ^ 52 * 2 powi 971 \<le> (2 ^ 53 - 1) * 2 powi 971"
    by (intro mult_right_mono) simp_all
  then show "2 powi 1023 \<le> max_double" by (simp only: e max_double_def)
  have "(2 ^ 53 - 1) * (2::rat) powi 971 < 2 ^ 53 * 2 powi 971"
    using pos by (intro mult_strict_right_mono) simp_all
  then show "max_double < 2 powi 1024" by (simp only: e max_double_def)
  have "(2 ^ 53 - 1) * (2::rat) powi 971 + (1 / 2) * 2 powi 971 = (2 ^ 53 - 1 / 2) * 2 powi 971"
    by (simp add: algebra_simps)
  also have "\<dots> < 2 ^ 53 * 2 powi 971"
    using pos by (intro mult_strict_right_mono) simp_all
  finally show "max_double + 2 powi 970 < 2 powi 1024" by (simp only: e max_double_def)
qed

lemma round_to_double_le_max:
  assumes "\<bar>q\<bar> < max_double + 2 powi 970"
  shows "\<bar>round_to_double q\<bar> \<le> max_double"
proof (cases "q = 0")
  case True
  have "(0::rat) \<le> 2 powi 1023" by simp
  also note max_double_bounds(1)
  finally show ?thesis using True by (simp add: round_to_double_def)
next
  case False
  let ?a = "\<bar>q\<bar>"
  let ?fl = "floor_log2 ?a"
  have pos: "0 < ?a" using False by simp
  have "?a < 2 powi (1023 + 1)" using assms max_double_bounds(3) by simp
  with pos have fl: "?fl \<le> 1023" by (rule floor_log2_le)
  show ?thesis
  proof (cases "?fl = 1023")
    case True
    then have p: "max ?fl (- 1022) - 52 = 971" by simp
    have p971: "(0::rat) < 2 powi 971" by simp
    have "?a / 2 powi 971 < (max_double + 2 powi 970) / 2 powi 971"
      using assms p971 by (simp only: divide_strict_right_mono)
    also have "(max_double + 2 powi 970) / 2 powi 971 = of_int (2 ^ 53 - 1) + 1 / 2"
    proof -
      have "(2::rat) powi 970 = (1 / 2) * 2 powi 971" by (simp add: power_int_def)
      then have "max_double + 2 powi 970 = (of_int (2 ^ 53 - 1) + 1 / 2) * 2 powi 971"
        by (simp add: max_double_def algebra_simps)
      then show ?thesis by simp
    qed
    finally have "round_half_even (?a / 2 powi 971) \<le> 2 ^ 53 - 1"
      by (rule round_half_even_below_half)
    then have "(of_int (round_half_even (?a / 2 powi 971)) :: rat) \<le> of_int (2 ^ 53 - 1)"
      by (simp only: of_int_le_iff)
    then have "of_int (round_half_even (?a / 2 powi 971)) * (2::rat) powi 971
        \<le> of_int (2 ^ 53 - 1) * 2 powi 971"
      by (intro mult_right_mono) simp_all
    moreover have "round_to_double ?a = of_int (round_half_even (?a / 2 powi 971)) * 2 powi 971"
      using round_to_double_pos [OF pos] by (simp only: p)
    moreover have "(of_int (2 ^ 53 - 1) :: rat) * 2 powi 971 = max_double"
      by (simp add: max_double_def)
    ultimately show ?thesis by (simp only: round_to_double_abs)
  next
    case False
    with fl have "?fl + 1 \<le> 1023" by simp
    then have "(2::rat) powi (?fl + 1) \<le> 2 powi 1023" by (intro power_int_increasing) auto
    moreover have "?a < 2 powi (?fl + 1)" using pos by (rule floor_log2_bounds)
    ultimately have "\<bar>q\<bar> \<le> 2 powi 1023" by simp
    then have "\<bar>round_to_double q\<bar> \<le> 2 powi 1023" by (rule round_to_double_bound)
    also note max_double_bounds(1)
    finally show ?thesis .
  qed
qed

lemma round_to_double_finite:
  assumes "\<bar>round_to_double q\<bar> < 2 powi 1024"
  shows "\<bar>round_to_double q\<bar> \<le> max_double"
proof (cases "q = 0")
  case True
  have "(0::rat) \<le> 2 powi 1023" by simp
  also note max_double_bounds(1)
  finally show ?thesis using True by (simp add: round_to_double_def)
next
  case False
  let ?a = "\<bar>q\<bar>"
  let ?fl = "floor_log2 ?a"
  have pos: "0 < ?a" using False by simp
  have lower: "2 powi ?fl \<le> ?a" using pos by (rule floor_log2_bounds)
  have fl: "?fl \<le> 1023"
  proof (rule ccontr)
    assume "\<not> ?fl \<le> 1023"
    then have "1024 \<le> ?fl" by simp
    then have "(2::rat) powi 1024 \<le> 2 powi ?fl" by (intro power_int_increasing) auto
    with lower have "2 powi 1024 \<le> ?a" by simp
    then have "2 powi 1024 \<le> \<bar>round_to_double q\<bar>" by (rule round_to_double_overflow)
    with assms show False by simp
  qed
  show ?thesis
  proof (cases "?fl = 1023")
    case True
    then have p: "max ?fl (- 1022) - 52 = 971" by simp
    have r: "round_to_double ?a = of_int (round_half_even (?a / 2 powi 971)) * 2 powi 971"
      using round_to_double_pos [OF pos] by (simp only: p)
    have "(2::rat) powi 1024 = of_int (2 ^ 53) * 2 powi 971" by (simp add: power_int_def)
    with assms r have "of_int (round_half_even (?a / 2 powi 971)) * (2::rat) powi 971
        < of_int (2 ^ 53) * 2 powi 971"
      by (simp only: round_to_double_abs)
    then have "(of_int (round_half_even (?a / 2 powi 971)) :: rat) < of_int (2 ^ 53)"
      by (simp only: mult_less_cancel_right_pos zero_less_power_int zero_less_numeral)
    then have "round_half_even (?a / 2 powi 971) < 2 ^ 53" by (simp only: of_int_less_iff)
    then have "round_half_even (?a / 2 powi 971) \<le> 2 ^ 53 - 1" by simp
    then have "(of_int (round_half_even (?a / 2 powi 971)) :: rat) \<le> of_int (2 ^ 53 - 1)"
      by (simp only: of_int_le_iff)
    then have "of_int (round_half_even (?a / 2 powi 971)) * (2::rat) powi 971
        \<le> of_int (2 ^ 53 - 1) * 2 powi 971"
      by (intro mult_right_mono) simp_all
    moreover have "(of_int (2 ^ 53 - 1) :: rat) * 2 powi 971 = max_double"
      by (simp add: max_double_def)
    ultimately show ?thesis using r by (simp only: round_to_double_abs)
  next
    case False
    with fl have "?fl + 1 \<le> 1023" by simp
    then have "(2::rat) powi (?fl + 1) \<le> 2 powi 1023" by (intro power_int_increasing) auto
    moreover have "?a < 2 powi (?fl + 1)" using pos by (rule floor_log2_bounds)
    ultimately have "\<bar>q\<bar> \<le> 2 powi 1023" by simp
    then have "\<bar>round_to_double q\<bar> \<le> 2 powi 1023" by (rule round_to_double_bound)
    also note max_double_bounds(1)
    finally show ?thesis .
  qed
qed

lemma float_sub_finite:
  assumes "int_true_divide a b = Inr error_ratio"
  shows "\<bar>float_sub float_1_3 error_ratio\<bar> \<le> max_double"
proof -
  let ?r = "round_to_double (of_int a / of_int b)"
  from assms have r: "error_ratio = ?r" and fin: "\<bar>?r\<bar> < 2 powi 1024"
    by (simp_all add: int_true_divide_def Let_def split: if_splits)
  from fin have "\<bar>?r\<bar> \<le> max_double" by (rule round_to_double_finite)
  moreover have "float_1_3 < 2 powi 970"
  proof -
    have "float_1_3 < 2 powi 1" by (simp add: float_1_3_value)
    also have "(2::rat) powi 1 \<le> 2 powi 970" by (intro power_int_increasing) auto
    finally show ?thesis .
  qed
  moreover have "0 \<le> float_1_3" by (simp add: float_1_3_value)
  ultimately have "\<bar>float_1_3 - ?r\<bar> < max_double + 2 powi 970" by linarith
  then show ?thesis unfolding float_sub_def r by (rule round_to_double_le_max)
qed

text \<open>The roundings that the examples below need, by evaluation.\<close>

lemma round_to_double_1: "round_to_double 1 = 1"
  by code_simp

lemma int_true_divide_250_500: "int_true_divide 250 500 = Inr (1 / 2)"
  by code_simp

lemma int_true_divide_1000_500: "int_true_divide 1000 500 = Inr 2"
  by code_simp

lemma int_true_divide_40_500:
  "int_true_divide 40 500 = Inr (5764607523034235 / 72057594037927936)"
  by code_simp

lemma int_true_divide_10_500:
  "int_true_divide 10 500 = Inr (5764607523034235 / 288230376151711744)"
  by code_simp

lemma float_sub_1_3_1: "float_sub float_1_3 1 = 1351079888211149 / 4503599627370496"
  by code_simp

lemma float_sub_1_3_half: "float_sub float_1_3 (1 / 2) = 3602879701896397 / 4503599627370496"
  by code_simp

lemma float_sub_1_3_2: "float_sub float_1_3 2 = - (3152519739159347 / 4503599627370496)"
  by code_simp

lemma float_sub_1_3_40_500:
  "float_sub float_1_3 (5764607523034235 / 72057594037927936)
     = 5494391545392005 / 4503599627370496"
  by code_simp

lemma float_sub_1_3_10_500:
  "float_sub float_1_3 (5764607523034235 / 288230376151711744)
     = 5764607523034235 / 4503599627370496"
  by code_simp

lemma int_true_divide_same:
  assumes "t \<noteq> 0"
  shows "int_true_divide t t = Inr 1"
proof -
  have "(2::rat) powi 0 < 2 powi 1024" by (intro power_int_strict_increasing) auto
  then have "\<not> 2 powi 1024 \<le> \<bar>1::rat\<bar>" by simp
  then show ?thesis
    using assms by (simp add: int_true_divide_def round_to_double_1)
qed

section \<open>Error margin and signal strength\<close>

text \<open>
  C6. A freshly constructed decoder reports the number 0 as its last error margin, not an
  absent value: \<^verbatim>\<open>__init__\<close> stores 0 and the property returns the field, although
  the docstring of the property promises \<^verbatim>\<open>None\<close> before the first packet.
\<close>

theorem fresh_last_error_margin:
  "last_error_margin (InfraredDecoder_init t) = 0"
  by (simp add: InfraredDecoder_init_def)

text \<open>
  The division raises \<^verbatim>\<open>OverflowError\<close> once the margin is \<open>2 ^ 1024\<close> thresholds or
  more in magnitude, and returns when it is at most \<open>2 ^ 1023\<close> thresholds; the strength
  returned is always a finite float.
\<close>

lemma signal_strength_finite:
  assumes "last_signal_strength d = Inr s"
  shows "\<bar>s\<bar> \<le> max_double"
proof -
  have one: "1 \<le> max_double"
  proof -
    have "(1::rat) = 2 powi 0" by simp
    also have "\<dots> \<le> 2 powi 1023" by (intro power_int_increasing) auto
    also note max_double_bounds(1)
    finally show ?thesis .
  qed
  show ?thesis
  proof (cases "last_error_margin d = 0")
    case True
    with assms have "s = 1" by (simp add: last_signal_strength_def)
    with one show ?thesis by simp
  next
    case False
    with assms obtain e where e: "int_true_divide (last_error_margin d) (error_threshold d) = Inr e"
      and s: "s = min 1 (float_sub float_1_3 e)"
      by (auto simp: last_signal_strength_def Let_def split: sum.splits)
    from e have "\<bar>float_sub float_1_3 e\<bar> \<le> max_double" by (rule float_sub_finite)
    with one show ?thesis unfolding s by (simp add: min_def abs_le_iff)
  qed
qed

lemma signal_strength_overflow:
  assumes "error_threshold d \<noteq> 0"
    and "2 ^ 1024 * \<bar>error_threshold d\<bar> \<le> \<bar>last_error_margin d\<bar>"
  shows "last_signal_strength d = Inl OverflowError"
proof -
  let ?m = "last_error_margin d" and ?t = "error_threshold d"
  have t: "(0::rat) < \<bar>of_int ?t\<bar>" using assms(1) by simp
  have "(of_int (2 ^ 1024 * \<bar>?t\<bar>) :: rat) \<le> of_int \<bar>?m\<bar>"
    using assms(2) by (simp only: of_int_le_iff)
  then have "(2::rat) ^ 1024 * \<bar>of_int ?t\<bar> \<le> \<bar>of_int ?m\<bar>"
    by (simp only: of_int_mult of_int_power of_int_numeral of_int_abs)
  then have "(2::rat) ^ 1024 \<le> \<bar>of_int ?m\<bar> / \<bar>of_int ?t\<bar>"
    using t by (simp only: pos_le_divide_eq)
  moreover have "(2::rat) ^ 1024 = 2 powi 1024" by (simp add: power_int_def)
  ultimately have "2 powi 1024 \<le> \<bar>of_int ?m / of_int ?t :: rat\<bar>"
    by (simp only: abs_divide)
  then have big: "2 powi 1024 \<le> \<bar>round_to_double (of_int ?m / of_int ?t)\<bar>"
    by (rule round_to_double_overflow)
  have "?m \<noteq> 0"
  proof
    assume "?m = 0"
    with assms have "2 ^ 1024 * \<bar>?t\<bar> \<le> 0" "0 < \<bar>?t\<bar>" by simp_all
    then show False by (simp add: mult_le_0_iff)
  qed
  then show ?thesis
    using assms(1) big by (simp add: last_signal_strength_def int_true_divide_def Let_def)
qed

lemma signal_strength_defined:
  assumes "error_threshold dec \<noteq> 0"
    and "\<bar>last_error_margin dec\<bar> \<le> 2 ^ 1023 * \<bar>error_threshold dec\<bar>"
  shows "\<exists>s. last_signal_strength dec = Inr s"
proof -
  let ?m = "last_error_margin dec" and ?t = "error_threshold dec"
  let ?r = "round_to_double (of_int ?m / of_int ?t)"
  have t: "(0::rat) < \<bar>of_int ?t\<bar>" using assms(1) by simp
  have "(of_int \<bar>?m\<bar> :: rat) \<le> of_int (2 ^ 1023 * \<bar>?t\<bar>)"
    using assms(2) by (simp only: of_int_le_iff)
  then have "\<bar>of_int ?m\<bar> \<le> (2::rat) ^ 1023 * \<bar>of_int ?t\<bar>"
    by (simp only: of_int_mult of_int_power of_int_numeral of_int_abs)
  then have "\<bar>of_int ?m\<bar> / \<bar>of_int ?t\<bar> \<le> (2::rat) ^ 1023"
    using t by (simp only: pos_divide_le_eq)
  moreover have "(2::rat) ^ 1023 = 2 powi 1023" by (simp add: power_int_def)
  ultimately have "\<bar>of_int ?m / of_int ?t :: rat\<bar> \<le> 2 powi 1023"
    by (simp only: abs_divide)
  then have "\<bar>?r\<bar> \<le> 2 powi 1023" by (rule round_to_double_bound)
  moreover have "(2::rat) powi 1023 < 2 powi 1024"
    by (intro power_int_strict_increasing) auto
  ultimately have "\<not> 2 powi 1024 \<le> \<bar>?r\<bar>" by simp
  then show ?thesis
    using assms(1) by (simp add: last_signal_strength_def int_true_divide_def Let_def)
qed

lemma signal_strength_40_500:
  "error_threshold d = 500 \<Longrightarrow> last_error_margin d = 40 \<Longrightarrow> last_signal_strength d = Inr 1"
  by (simp add: last_signal_strength_def int_true_divide_40_500 float_sub_1_3_40_500)

lemma signal_strength_10_500:
  "error_threshold d = 500 \<Longrightarrow> last_error_margin d = 10 \<Longrightarrow> last_signal_strength d = Inr 1"
  by (simp add: last_signal_strength_def int_true_divide_10_500 float_sub_1_3_10_500)

lemma signal_strength_overflow_example:
  "last_signal_strength (reset (- (10 ^ 400)) (InfraredDecoder_init 1)) = Inl OverflowError"
proof -
  have "(2::int) ^ 1024 \<le> 10 ^ 400" by simp
  then show ?thesis
    by (intro signal_strength_overflow)
      (simp_all add: reset_def reset_bit_writer_def InfraredDecoder_init_def)
qed

text \<open>
  C5, as stated, fails: a margin equal to the threshold gives the float
  \<^verbatim>\<open>1.3 - 1.0 = 0.30000000000000004\<close>, which is \<open>1351079888211149 / 2 ^ 52\<close>, not 0.
\<close>

theorem signal_strength_counterexample:
  "last_signal_strength (reset 500 (InfraredDecoder_init 500))
     = Inr (1351079888211149 / 4503599627370496)
   \<and> last_signal_strength (reset 500 (InfraredDecoder_init 500)) \<noteq> Inr 0"
  by (simp add: last_signal_strength_def reset_def reset_bit_writer_def InfraredDecoder_init_def
      int_true_divide_same float_sub_1_3_1)

text \<open>
  The source takes only the minimum with 1; with a margin above 1.3 times the threshold
  the result is negative, here \<^verbatim>\<open>1.3 - 2.0 = -0.7\<close>.
\<close>

lemma signal_strength_not_floored:
  "last_signal_strength (reset 1000 (InfraredDecoder_init 500))
     = Inr (- (3152519739159347 / 4503599627370496))"
  by (simp add: last_signal_strength_def reset_def reset_bit_writer_def InfraredDecoder_init_def
      int_true_divide_1000_500 float_sub_1_3_2)

text \<open>
  C5, amended. For a positive threshold T and a recorded margin m with
  \<open>- (2 ^ 1023) * T \<le> m \<le> 1.3 * T\<close>, the division \<^verbatim>\<open>m / T\<close> returns a float, the
  strength is 1 when m = 0 and otherwise the float \<^verbatim>\<open>1.3 - m / T\<close> (division and
  subtraction each rounded to binary64) clamped to [0, 1]; a margin equal to the threshold
  gives \<^verbatim>\<open>0.30000000000000004\<close>.
\<close>

theorem last_signal_strength_spec:
  assumes "0 < error_threshold d"
    and "10 * last_error_margin d \<le> 13 * error_threshold d"
    and "- (2 ^ 1023) * error_threshold d \<le> last_error_margin d"
  shows "\<exists>error_ratio.
           int_true_divide (last_error_margin d) (error_threshold d) = Inr error_ratio
           \<and> last_signal_strength d =
               Inr (if last_error_margin d = 0 then 1
                    else max 0 (min 1 (float_sub float_1_3 error_ratio)))
           \<and> (last_error_margin d = error_threshold d \<longrightarrow>
                last_signal_strength d = Inr (1351079888211149 / 4503599627370496))"
proof -
  let ?m = "last_error_margin d" and ?t = "error_threshold d"
  let ?q = "of_int ?m / of_int ?t :: rat"
  let ?r = "round_to_double ?q"
  have t: "(0::rat) < of_int ?t" using assms(1) by simp
  have "(of_int (10 * ?m) :: rat) \<le> of_int (13 * ?t)"
    using assms(2) by (simp only: of_int_le_iff)
  then have up: "?q \<le> 13 / 10" using t by (simp add: field_simps)
  define B :: rat where "B = 2 ^ 1023"
  have "(of_int (- (2 ^ 1023) * ?t) :: rat) \<le> of_int ?m"
    using assms(3) by (simp only: of_int_le_iff)
  then have "- B * of_int ?t \<le> of_int ?m"
    by (simp only: B_def of_int_mult of_int_minus of_int_power of_int_numeral)
  then have lo: "- B \<le> ?q" using t by (simp add: field_simps)
  have "(2::rat) ^ 1 \<le> 2 ^ 1023" by (rule power_increasing) simp_all
  then have "2 \<le> B" by (simp only: B_def power_one_right)
  then have "13 / 10 \<le> B" by linarith
  then have "?q \<le> B" "- ?q \<le> B" using up lo by linarith+
  then have "\<bar>?q\<bar> \<le> B" by (simp only: abs_le_iff)
  moreover have "B = 2 powi 1023" by (simp add: B_def power_int_def)
  ultimately have "\<bar>?q\<bar> \<le> 2 powi 1023" by (simp only:)
  then have "\<bar>?r\<bar> \<le> 2 powi 1023" by (rule round_to_double_bound)
  moreover have "(2::rat) powi 1023 < 2 powi 1024"
    by (intro power_int_strict_increasing) auto
  ultimately have fin: "\<not> 2 powi 1024 \<le> \<bar>?r\<bar>" by simp
  have div: "int_true_divide ?m ?t = Inr ?r"
    using assms(1) fin by (simp add: int_true_divide_def Let_def)
  have "?r \<le> float_1_3"
  proof (cases "0 \<le> ?q")
    case True
    then show ?thesis using up by (rule round_to_double_le_1_3)
  next
    case False
    then have "0 \<le> round_to_double (- ?q)" by (intro round_to_double_nonneg) simp
    then have "?r \<le> 0" by (simp add: round_to_double_minus)
    also have "0 \<le> float_1_3" by (simp add: float_1_3_value)
    finally show ?thesis .
  qed
  then have "0 \<le> float_sub float_1_3 ?r"
    unfolding float_sub_def by (intro round_to_double_nonneg) simp
  then have clamp: "max 0 (min 1 (float_sub float_1_3 ?r)) = min 1 (float_sub float_1_3 ?r)"
    by simp
  have general: "last_signal_strength d =
      Inr (if ?m = 0 then 1 else max 0 (min 1 (float_sub float_1_3 ?r)))"
    unfolding clamp using div by (simp add: last_signal_strength_def Let_def)
  have equal: "last_signal_strength d = Inr (1351079888211149 / 4503599627370496)"
    if "?m = ?t"
  proof -
    have q1: "?q = 1" using that assms(1) by simp
    have "?m \<noteq> 0" using that assms(1) by simp
    then show ?thesis
      using general by (simp add: q1 round_to_double_1 float_sub_1_3_1)
  qed
  from div general equal show ?thesis by blast
qed

theorem last_signal_strength_spec_witness:
  "last_signal_strength (reset 250 (InfraredDecoder_init 500))
     = Inr (3602879701896397 / 4503599627370496)
   \<and> last_signal_strength (reset 500 (InfraredDecoder_init 500))
     = Inr (1351079888211149 / 4503599627370496)"
proof -
  have a: "0 < error_threshold (reset 250 (InfraredDecoder_init 500))"
    "10 * last_error_margin (reset 250 (InfraredDecoder_init 500))
       \<le> 13 * error_threshold (reset 250 (InfraredDecoder_init 500))"
    "- (2 ^ 1023) * error_threshold (reset 250 (InfraredDecoder_init 500))
       \<le> last_error_margin (reset 250 (InfraredDecoder_init 500))"
    by (simp_all add: reset_def reset_bit_writer_def InfraredDecoder_init_def)
  have b: "0 < error_threshold (reset 500 (InfraredDecoder_init 500))"
    "10 * last_error_margin (reset 500 (InfraredDecoder_init 500))
       \<le> 13 * error_threshold (reset 500 (InfraredDecoder_init 500))"
    "- (2 ^ 1023) * error_threshold (reset 500 (InfraredDecoder_init 500))
       \<le> last_error_margin (reset 500 (InfraredDecoder_init 500))"
    by (simp_all add: reset_def reset_bit_writer_def InfraredDecoder_init_def)
  have s: "max 0 (min 1 (float_sub float_1_3 (1 / 2))) = 3602879701896397 / 4503599627370496"
    by (simp add: float_sub_1_3_half)
  have eq: "last_error_margin (reset 500 (InfraredDecoder_init 500))
      = error_threshold (reset 500 (InfraredDecoder_init 500))"
    by (simp add: reset_def reset_bit_writer_def InfraredDecoder_init_def)
  have m: "last_error_margin (reset 250 (InfraredDecoder_init 500)) = 250"
    "error_threshold (reset 250 (InfraredDecoder_init 500)) = 500"
    by (simp_all add: reset_def reset_bit_writer_def InfraredDecoder_init_def)
  from last_signal_strength_spec [OF a]
  have "\<exists>e. int_true_divide 250 500 = Inr e
          \<and> last_signal_strength (reset 250 (InfraredDecoder_init 500)) =
              Inr (if (250::int) = 0 then 1 else max 0 (min 1 (float_sub float_1_3 e)))"
    unfolding m by blast
  then obtain e where e: "int_true_divide 250 500 = Inr e"
    and v: "last_signal_strength (reset 250 (InfraredDecoder_init 500)) =
              Inr (max 0 (min 1 (float_sub float_1_3 e)))"
    by auto
  from e int_true_divide_250_500 have "e = 1 / 2" by (simp only: sum.inject)
  with v s have first: "last_signal_strength (reset 250 (InfraredDecoder_init 500))
     = Inr (3602879701896397 / 4503599627370496)"
    by (simp only:)
  from last_signal_strength_spec [OF b] eq
  have second: "last_signal_strength (reset 500 (InfraredDecoder_init 500))
     = Inr (1351079888211149 / 4503599627370496)"
    by blast
  from first second show ?thesis by (rule conjI)
qed

section \<open>The tag field codec\<close>

lemma and_3_id: "0 \<le> (x::int) \<Longrightarrow> x \<le> 3 \<Longrightarrow> x AND 3 = x"
proof -
  assume "0 \<le> x" "x \<le> 3"
  then have "x \<in> {0, 1, 2, 3}" by auto
  then show ?thesis by auto
qed

lemma and_7_id: "0 \<le> (x::int) \<Longrightarrow> x \<le> 7 \<Longrightarrow> x AND 7 = x"
proof -
  assume "0 \<le> x" "x \<le> 7"
  then have "x \<in> {0, 1, 2, 3, 4, 5, 6, 7}" by auto
  then show ?thesis by auto
qed

lemma packed_is_byte:
  assumes "0 \<le> a" "a \<le> 3" "0 \<le> b" "b \<le> 7" "0 \<le> c" "c \<le> (3::int)"
  shows "is_byte ((push_bit 5 a OR push_bit 2 b) OR c)"
proof -
  have a: "a \<in> {0, 1, 2, 3}" using assms by auto
  have b: "b \<in> {0, 1, 2, 3, 4, 5, 6, 7}" using assms by auto
  have c: "c \<in> {0, 1, 2, 3}" using assms by auto
  show ?thesis using a b c unfolding is_byte_def by auto
qed

lemma encode_tag_data_valid:
  assumes "0 \<le> team t" "team t \<le> 3" "1 \<le> player t" "player t \<le> 8" "1 \<le> damage t" "damage t \<le> 4"
  shows "encode_tag_data t = Inr [(push_bit 5 (team t) OR push_bit 2 (player t - 1)) OR (damage t - 1)]"
proof -
  have "is_byte ((push_bit 5 (team t) OR push_bit 2 (player t - 1)) OR (damage t - 1))"
    using assms by (intro packed_is_byte) auto
  moreover have "team t AND 3 = team t" using assms by (simp add: and_3_id)
  moreover have "(player t - 1) AND 7 = player t - 1" using assms by (simp add: and_7_id)
  moreover have "(damage t - 1) AND 3 = damage t - 1" using assms by (simp add: and_3_id)
  ultimately show ?thesis using assms
    by (simp add: encode_tag_data_def bytearray_def Let_def)
qed

lemma decode_packed:
  assumes "0 \<le> a" "a \<le> 3" "0 \<le> b" "b \<le> 7" "0 \<le> c" "c \<le> (3::int)"
  shows "decode_tag_data [(push_bit 5 a OR push_bit 2 b) OR c] =
           Inr \<lparr>team = a, player = 1 + b, damage = 1 + c\<rparr>"
proof -
  have a: "a \<in> {0, 1, 2, 3}" using assms by auto
  have b: "b \<in> {0, 1, 2, 3, 4, 5, 6, 7}" using assms by auto
  have c: "c \<in> {0, 1, 2, 3}" using assms by auto
  show ?thesis using a b c
    by (auto simp: decode_tag_data_def py_index_def)
qed

text \<open>
  C8. \<^verbatim>\<open>encode_tag_data\<close> raises its range error (a \<^verbatim>\<open>ValueError\<close>) exactly when the
  team is outside [0,3], the player outside [1,8] or the damage outside [1,4]; in range
  it returns the one byte team<<5 | (player-1)<<2 | (damage-1); team 2, player 5,
  damage 3 gives 0x52.
\<close>

theorem encode_tag_data_spec:
  "((\<exists>msg. encode_tag_data t = Inl (ValueError msg)) \<longleftrightarrow>
      (team t < 0 \<or> team t > 3 \<or> player t < 1 \<or> player t > 8 \<or> damage t < 1 \<or> damage t > 4))
   \<and> (0 \<le> team t \<and> team t \<le> 3 \<and> 1 \<le> player t \<and> player t \<le> 8 \<and> 1 \<le> damage t \<and> damage t \<le> 4 \<longrightarrow>
        encode_tag_data t = Inr [(push_bit 5 (team t) OR push_bit 2 (player t - 1)) OR (damage t - 1)])
   \<and> encode_tag_data \<lparr>team = 2, player = 5, damage = 3\<rparr> = Inr [0x52]"
proof (intro conjI impI)
  show "(\<exists>msg. encode_tag_data t = Inl (ValueError msg)) \<longleftrightarrow>
      (team t < 0 \<or> team t > 3 \<or> player t < 1 \<or> player t > 8 \<or> damage t < 1 \<or> damage t > 4)"
  proof (cases "0 \<le> team t \<and> team t \<le> 3 \<and> 1 \<le> player t \<and> player t \<le> 8 \<and> 1 \<le> damage t \<and> damage t \<le> 4")
    case True
    then show ?thesis using encode_tag_data_valid [of t] by auto
  next
    case False
    then show ?thesis by (auto simp: encode_tag_data_def)
  qed
next
  assume "0 \<le> team t \<and> team t \<le> 3 \<and> 1 \<le> player t \<and> player t \<le> 8 \<and> 1 \<le> damage t \<and> damage t \<le> 4"
  then show "encode_tag_data t = Inr [(push_bit 5 (team t) OR push_bit 2 (player t - 1)) OR (damage t - 1)]"
    by (simp add: encode_tag_data_valid)
next
  show "encode_tag_data \<lparr>team = 2, player = 5, damage = 3\<rparr> = Inr [0x52]"
    by (simp add: encode_tag_data_def bytearray_def is_byte_def Let_def)
qed

theorem encode_tag_data_spec_witness:
  "encode_tag_data \<lparr>team = 3, player = 8, damage = 4\<rparr> = Inr [0x7F]
   \<and> (\<exists>msg. encode_tag_data \<lparr>team = 4, player = 1, damage = 1\<rparr> = Inl (ValueError msg))"
  using encode_tag_data_spec [of "\<lparr>team = 3, player = 8, damage = 4\<rparr>"]
        encode_tag_data_spec [of "\<lparr>team = 4, player = 1, damage = 1\<rparr>"]
  by simp

text \<open>
  C9. For a team in [0,3], a player in [1,8] and a damage in [1,4], encoding succeeds and
  decoding the encoded byte gives back the same team, player and damage.
\<close>

theorem tag_data_round_trip:
  assumes "0 \<le> team t" "team t \<le> 3" "1 \<le> player t" "player t \<le> 8" "1 \<le> damage t" "damage t \<le> 4"
  shows "\<exists>bs. encode_tag_data t = Inr bs \<and> decode_tag_data bs = Inr t"
proof -
  have "decode_tag_data [(push_bit 5 (team t) OR push_bit 2 (player t - 1)) OR (damage t - 1)]
        = Inr \<lparr>team = team t, player = 1 + (player t - 1), damage = 1 + (damage t - 1)\<rparr>"
    using assms by (intro decode_packed) auto
  then show ?thesis using encode_tag_data_valid [OF assms] by simp
qed

theorem tag_data_round_trip_witness:
  "\<exists>bs. encode_tag_data \<lparr>team = 2, player = 5, damage = 3\<rparr> = Inr bs
        \<and> decode_tag_data bs = Inr \<lparr>team = 2, player = 5, damage = 3\<rparr>"
  using tag_data_round_trip [of "\<lparr>team = 2, player = 5, damage = 3\<rparr>"]
  by simp

section \<open>The CRC protocol decoder\<close>

lemma reset_max [simp]: "reset m (d\<lparr>max_error_margin := x\<rparr>) = reset m d"
  by (simp add: reset_def reset_bit_writer_def)

lemma crc_step_word:
  "(if uint w AND 0x80 \<noteq> 0 then (push_bit 1 (uint w) AND 0xFF) XOR IR_CRC_GENERATOR
    else push_bit 1 (uint w) AND 0xFF)
   = uint (if bit w 7 then push_bit 1 w XOR 0x1D else push_bit 1 (w :: 8 word))"
proof -
  have m: "(255::int) = mask 8" by (simp add: mask_eq_exp_minus_1)
  have b: "(uint w AND 0x80 \<noteq> 0) \<longleftrightarrow> bit w 7"
  proof -
    have "(128::int) = 2 ^ 7" by simp
    then have "(uint w AND 0x80 \<noteq> 0) \<longleftrightarrow> bit (uint w) 7"
      by (metis and_exp_eq_0_iff_not_bit)
    then show ?thesis by (simp add: bit_uint_iff)
  qed
  have "uint (push_bit 1 w) = take_bit LENGTH(8) (push_bit 1 (uint w))"
    by (rule unsigned_push_bit_eq)
  then have p: "push_bit 1 (uint w) AND 0xFF = uint (push_bit 1 w)"
    by (simp add: take_bit_eq_mask mask_eq_exp_minus_1)
  have x: "uint (push_bit 1 w XOR 0x1D) = uint (push_bit 1 w) XOR 0x1D"
    by (simp add: uint_xor)
  show ?thesis using b p x by (simp add: IR_CRC_GENERATOR_def)
qed

lemma crc_shift_word: "crc_shift n (uint w) = uint (crc8_shift 0x1D n w)"
proof (induction n arbitrary: w)
  case 0
  then show ?case by simp
next
  case (Suc n)
  show ?case
    unfolding crc_shift.simps crc8_shift.simps crc_step_word Suc.IH ..
qed

lemma is_byte_uint: "is_byte b \<Longrightarrow> uint (word_of_int b :: 8 word) = b"
  by (simp add: is_byte_def uint_word_of_int take_bit_int_eq_self)

lemma crc_bytes_word:
  "list_all is_byte data \<Longrightarrow>
     crc_bytes (uint w) data = uint (crc8 0x1D w (map word_of_int data))"
proof (induction data arbitrary: w)
  case Nil
  then show ?case by simp
next
  case (Cons b data)
  then have b: "uint (word_of_int b :: 8 word) = b" by (simp add: is_byte_uint)
  have "uint w XOR b = uint (w XOR word_of_int b)"
    by (simp add: uint_xor b)
  then show ?case using Cons by (simp add: crc_shift_word)
qed

lemma calculate_crc_word:
  "list_all is_byte data \<Longrightarrow> calculate_crc data = uint (crc8 0x1D 0 (map word_of_int data))"
  using crc_bytes_word [of data 0] by (simp add: calculate_crc_def)

text \<open>
  C7. In the data state a pulse within tolerance of the lead-out duration ends the packet:
  with fewer than 2 collected bytes the decoder resets and returns nothing; otherwise the
  last byte is compared with \<open>calculate_crc\<close> of the bytes before it, those bytes are
  returned exactly when the two agree, and nothing is returned on a mismatch. On bytes,
  \<open>calculate_crc\<close> is the CRC-8 with generator polynomial 0x1D.
\<close>

theorem MWDecoder_lead_out:
  assumes "decoder_state d = 2"
    and "error_threshold d = IR_ERROR_MARGIN"
    and "\<bar>pulse - IR_LEAD_OUT\<bar> < IR_ERROR_MARGIN"
  shows "MWDecoder_decode pulse d =
           (if length (received_data d) < 2 then Inr (None, reset IR_ERROR_MARGIN d)
            else Inr (if last (received_data d) = calculate_crc (butlast (received_data d))
                      then Some (butlast (received_data d)) else None,
                      reset (max (max_error_margin d) \<bar>pulse - IR_LEAD_OUT\<bar>) d))
         \<and> (list_all is_byte (received_data d) \<longrightarrow>
              calculate_crc (butlast (received_data d)) =
                uint (crc8 0x1D 0 (map word_of_int (butlast (received_data d)))))"
proof
  have one: "\<not> \<bar>pulse - IR_ONE\<bar> < error_threshold d"
    and zero: "\<not> \<bar>pulse - IR_ZERO\<bar> < error_threshold d"
    and lead: "\<bar>pulse - IR_LEAD_OUT\<bar> < error_threshold d"
    using assms(2,3)
    by (auto simp: IR_ONE_def IR_ZERO_def IR_LEAD_OUT_def IR_UNIT_def IR_ERROR_MARGIN_def)
  show "MWDecoder_decode pulse d =
           (if length (received_data d) < 2 then Inr (None, reset IR_ERROR_MARGIN d)
            else Inr (if last (received_data d) = calculate_crc (butlast (received_data d))
                      then Some (butlast (received_data d)) else None,
                      reset (max (max_error_margin d) \<bar>pulse - IR_LEAD_OUT\<bar>) d))"
  proof (cases "length (received_data d) < 2")
    case True
    then show ?thesis using assms(1) one zero lead
      by (simp add: MWDecoder_decode_def check_pulse_def Let_def)
  next
    case False
    then have ne: "received_data d \<noteq> []" by auto
    have l: "received_data d ! nat (int (length (received_data d)) + - 1) = last (received_data d)"
      using ne by (simp add: last_conv_nth nat_diff_distrib')
    show ?thesis using assms(1) one zero lead False ne l
      by (simp add: MWDecoder_decode_def check_pulse_def Let_def py_index_def butlast_conv_take)
  qed
next
  show "list_all is_byte (received_data d) \<longrightarrow>
              calculate_crc (butlast (received_data d)) =
                uint (crc8 0x1D 0 (map word_of_int (butlast (received_data d))))"
  proof
    assume "list_all is_byte (received_data d)"
    then have "list_all is_byte (butlast (received_data d))"
      by (auto simp: list_all_iff dest: in_set_butlastD)
    then show "calculate_crc (butlast (received_data d)) =
                uint (crc8 0x1D 0 (map word_of_int (butlast (received_data d))))"
      by (rule calculate_crc_word)
  qed
qed

theorem MWDecoder_lead_out_witness:
  "MWDecoder_decode 5100 (mw_state [1, 0x1D]) = Inr (Some [1], reset 100 (mw_state [1, 0x1D]))
   \<and> MWDecoder_decode 5100 (mw_state [1, 0x1C]) = Inr (None, reset 100 (mw_state [1, 0x1C]))
   \<and> MWDecoder_decode 5100 (mw_state [1]) = Inr (None, reset 250 (mw_state [1]))
   \<and> uint (crc8 0x1D 0 [1]) = 0x1D"
  using MWDecoder_lead_out [of "mw_state [1, 0x1D]" 5100]
        MWDecoder_lead_out [of "mw_state [1, 0x1C]" 5100]
        MWDecoder_lead_out [of "mw_state [1]" 5100]
  by (simp add: mw_state_def MWDecoder_init_def InfraredDecoder_init_def reset_def reset_bit_writer_def
      IR_ERROR_MARGIN_def IR_LEAD_OUT_def IR_UNIT_def calculate_crc_def IR_CRC_GENERATOR_def
      is_byte_def eval_nat_numeral)

section \<open>The tag protocol: encoder and decoder\<close>

lemma test_msb: "((x::int) AND 0x80 > 0) \<longleftrightarrow> bit x 7"
proof -
  have e: "(0x80::int) = 2 ^ 7" by simp
  have "0 \<le> x AND 0x80" by simp
  then have "(x AND 0x80 > 0) \<longleftrightarrow> x AND 0x80 \<noteq> 0" by linarith
  also have "\<dots> \<longleftrightarrow> bit x 7" using e by (metis and_exp_eq_0_iff_not_bit)
  finally show ?thesis .
qed

lemma encode_bits_step:
  "encode_bits (Suc n) tag_data durations duration_index =
     (case array_set durations duration_index TAG_MARK of
        Inl e \<Rightarrow> Inl e
      | Inr durations1 \<Rightarrow>
          (case array_set durations1 (duration_index + 1) (tag_space (bit tag_data 7)) of
             Inl e \<Rightarrow> Inl e
           | Inr durations2 \<Rightarrow>
               encode_bits n (push_bit 1 tag_data) durations2 (duration_index + 1 + 1)))"
  by (simp only: encode_bits.simps test_msb tag_space_def)

lemma durations_filled:
  "(replicate 17 (0::int))
     [0 := a0, Suc 0 := a1, 2 := a2, 3 := a3, 4 := a4, 5 := a5, 6 := a6, 7 := a7, 8 := a8,
      9 := a9, 10 := a10, 11 := a11, 12 := a12, 13 := a13, 14 := a14, 15 := a15, 16 := a16]
   = [a0, a1, a2, a3, a4, a5, a6, a7, a8, a9, a10, a11, a12, a13, a14, a15, a16]"
  by (simp add: eval_nat_numeral)

lemma shifted_msb:
  fixes b :: int
  shows "bit (b * 2) 7 = bit b 6" "bit (4 * b) 7 = bit b 5" "bit (8 * b) 7 = bit b 4"
    "bit (16 * b) 7 = bit b 3" "bit (32 * b) 7 = bit b 2" "bit (64 * b) 7 = bit b 1"
    "bit (128 * b) 7 = bit b 0"
  using bit_push_bit_iff [of 1 b 7] bit_push_bit_iff [of 2 b 7] bit_push_bit_iff [of 3 b 7]
    bit_push_bit_iff [of 4 b 7] bit_push_bit_iff [of 5 b 7] bit_push_bit_iff [of 6 b 7]
    bit_push_bit_iff [of 7 b 7]
  by (simp_all add: push_bit_eq_mult mult.commute)

lemma encode_closed:
  "TagInfraredEncoder_encode [b] =
     Inr ([3000, 6000, 3000,
           2000, tag_space (bit b 6), 2000, tag_space (bit b 5), 2000, tag_space (bit b 4),
           2000, tag_space (bit b 3), 2000, tag_space (bit b 2), 2000, tag_space (bit b 1),
           2000, tag_space (bit b 0)])"
proof -
  have sp: "\<And>c. \<not> tag_space c < 0" "\<And>c. \<not> 65536 \<le> tag_space c"
    by (simp_all add: tag_space_def TAG_SPACE_ONE_def TAG_SPACE_ZERO_def)
  have n7: "TAG_DATA_BITS = Suc (Suc (Suc (Suc (Suc (Suc (Suc 0))))))"
    by (simp add: TAG_DATA_BITS_def TAG_TEAM_BITS_def TAG_PLAYER_BITS_def TAG_DAMAGE_BITS_def)
  show ?thesis
    unfolding TagInfraredEncoder_encode_def n7 encode_bits_step encode_bits.simps(1)
    by (simp add: TAG_PREAMBLE_def array_set_def py_index_def TAG_MARK_def sp
        durations_filled shifted_msb)
qed

lemmas tag_consts = TAG_PREAMBLE_def TAG_TOTAL_PULSES_def TAG_DATA_BITS_def TAG_TEAM_BITS_def
  TAG_PLAYER_BITS_def TAG_DAMAGE_BITS_def TAG_MARK_def TAG_SPACE_ONE_def TAG_SPACE_ZERO_def
  TAG_ERROR_MARGIN_def

lemma reset_tag_decoder:
  "error_threshold d = 500 \<Longrightarrow> reset e d = tag_decoder 0 [] 7 0 e"
  by (simp add: reset_def reset_bit_writer_def tag_decoder_def)

lemma tag_preamble_step:
  "TagInfraredDecoder_decode 3000 (tag_decoder 0 ds i B e) = Inr (None, tag_decoder 1 ds i B e)"
  "TagInfraredDecoder_decode 6000 (tag_decoder 1 ds i B e) = Inr (None, tag_decoder 2 ds i B e)"
  "TagInfraredDecoder_decode 3000 (tag_decoder 2 ds i B e) = Inr (None, tag_decoder 3 ds i B e)"
  by (simp_all add: TagInfraredDecoder_decode_def tag_decoder_def tag_consts py_index_def
      check_pulse_def Let_def)

lemma tag_mark_step:
  assumes "3 \<le> s" "s < 17" "(s - 3) mod 2 = 0"
  shows "TagInfraredDecoder_decode 2000 (tag_decoder s ds i B e) = Inr (None, tag_decoder (s + 1) ds i B e)"
  using assms
  by (simp add: TagInfraredDecoder_decode_def tag_decoder_def tag_consts check_pulse_def Let_def)

lemma tag_space_step:
  assumes "3 \<le> s" "s < 17" "(s - 3) mod 2 = 1" "1 \<le> i"
  shows "TagInfraredDecoder_decode (tag_space c) (tag_decoder s ds i B e) =
           Inr (None, tag_decoder (s + 1) ds (i - 1) (B OR push_bit (nat i) (of_bool c)) e)"
  using assms
  by (cases c)
     (simp_all add: TagInfraredDecoder_decode_def tag_decoder_def tag_consts tag_space_def
       check_pulse_def write_bit_def py_lshift_def Let_def)

lemma tag_final_step:
  assumes "is_byte B"
  shows "TagInfraredDecoder_decode p (tag_decoder 17 [] 0 B e) =
           Inr (Some [drop_bit 1 B], tag_decoder 0 [] 7 0 0)"
proof -
  have "0 \<le> B div 2 \<and> B div 2 < 256"
    using assms unfolding is_byte_def by presburger
  then show ?thesis using assms
    by (simp add: TagInfraredDecoder_decode_def tag_decoder_def tag_consts write_bit_def
      bytearray_append_def bytearray_def py_index_def reset_def reset_bit_writer_def Let_def
      is_byte_def drop_bit_eq_div)
qed

lemma or_step:
  fixes v :: int
  shows "push_bit (Suc m) (drop_bit (Suc j) v) OR push_bit m (of_bool (bit v j)) = push_bit m (drop_bit j v)"
proof (rule bit_eqI)
  fix n :: nat
  consider "n < m" | "n = m" | "m < n" by arith
  then show "bit (push_bit (Suc m) (drop_bit (Suc j) v) OR push_bit m (of_bool (bit v j))) n
       = bit (push_bit m (drop_bit j v)) n"
  proof cases
    case 1
    then show ?thesis
      by (simp add: bit_or_iff bit_push_bit_iff bit_drop_bit_eq bit_of_bool_iff)
  next
    case 2
    then show ?thesis
      by (simp add: bit_or_iff bit_push_bit_iff bit_drop_bit_eq bit_of_bool_iff bit_0)
  next
    case 3
    then have "Suc j + (n - Suc m) = j + (n - m)" by arith
    with 3 show ?thesis
      by (simp add: bit_or_iff bit_push_bit_iff bit_drop_bit_eq bit_of_bool_iff Suc_le_eq
          del: add_Suc push_bit_Suc drop_bit_Suc)
  qed
qed

lemma tag_bit_pair:
  assumes "m = Suc j" and "j < 7"
  shows "feed TagInfraredDecoder_decode (tag_progress v m e) (2000 # tag_space (bit v j) # rest) =
           (case feed TagInfraredDecoder_decode (tag_progress v j e) rest of
              Inl x \<Rightarrow> Inl x
            | Inr (rs, d') \<Rightarrow> Inr (None # None # rs, d'))"
proof -
  let ?s = "17 - 2 * int m"
  let ?B = "push_bit (Suc m) (drop_bit m v)"
  have s: "3 \<le> ?s" "?s < 17" "(?s - 3) mod 2 = 0" "3 \<le> ?s + 1" "?s + 1 < 17" "(?s + 1 - 3) mod 2 = 1"
    "1 \<le> int m"
    using assms by presburger+
  have mark: "TagInfraredDecoder_decode 2000 (tag_progress v m e) = Inr (None, tag_decoder (?s + 1) [] (int m) ?B e)"
    unfolding tag_progress_def using s(1-3) by (rule tag_mark_step)
  have space: "TagInfraredDecoder_decode (tag_space (bit v j)) (tag_decoder (?s + 1) [] (int m) ?B e)
      = Inr (None, tag_decoder (?s + 1 + 1) [] (int m - 1) (?B OR push_bit (nat (int m)) (of_bool (bit v j))) e)"
    using s(4-7) by (rule tag_space_step)
  have B: "?B OR push_bit (nat (int m)) (of_bool (bit v j)) = push_bit (Suc j) (drop_bit j v)"
    unfolding assms(1) nat_int by (rule or_step)
  have next_state: "tag_decoder (?s + 1 + 1) [] (int m - 1) (push_bit (Suc j) (drop_bit j v)) e
       = tag_progress v j e"
    using assms(1) by (simp add: tag_progress_def)
  show ?thesis
    by (simp only: feed.simps mark space B next_state sum.case prod.case)
       (simp split: sum.splits prod.splits)
qed

lemma decode_stream:
  assumes "0 \<le> v" "v < 128"
  shows "feed TagInfraredDecoder_decode (tag_decoder 0 [] 7 0 e)
           ([3000, 6000, 3000,
             2000, tag_space (bit v 6), 2000, tag_space (bit v 5), 2000, tag_space (bit v 4),
             2000, tag_space (bit v 3), 2000, tag_space (bit v 2), 2000, tag_space (bit v 1),
             2000, tag_space (bit v 0)] @ [p])
         = Inr (replicate 17 None @ [Some [v]], tag_decoder 0 [] 7 0 0)"
proof -
  have start: "tag_decoder 3 [] 7 0 e = tag_progress v 7 e"
  proof -
    have "v < 2 ^ 7" using assms by simp
    then have "drop_bit 7 v = 0" using assms(1) by (simp add: drop_bit_eq_div)
    then show ?thesis by (simp add: tag_progress_def)
  qed
  have finish: "tag_progress v 0 e = tag_decoder 17 [] 0 (push_bit 1 v) e"
    by (simp add: tag_progress_def)
  have byte: "is_byte (push_bit 1 v)"
    using assms by (simp add: is_byte_def push_bit_eq_mult)
  have last_step: "TagInfraredDecoder_decode p (tag_progress v 0 e) = Inr (Some [v], tag_decoder 0 [] 7 0 0)"
    unfolding finish using tag_final_step [OF byte, of p e] by (simp add: drop_bit_eq_div push_bit_eq_mult)
  have pre: "TagInfraredDecoder_decode 3000 (tag_decoder 0 [] 7 0 e) = Inr (None, tag_decoder 1 [] 7 0 e)"
    "TagInfraredDecoder_decode 6000 (tag_decoder 1 [] 7 0 e) = Inr (None, tag_decoder 2 [] 7 0 e)"
    "TagInfraredDecoder_decode 3000 (tag_decoder 2 [] 7 0 e) = Inr (None, tag_progress v 7 e)"
    using tag_preamble_step [of "[]" 7 0 e] start by simp_all
  note pairs = tag_bit_pair [of 7 6 v e] tag_bit_pair [of 6 5 v e] tag_bit_pair [of 5 4 v e]
    tag_bit_pair [of 4 3 v e] tag_bit_pair [of 3 2 v e] tag_bit_pair [of 2 1 v e]
    tag_bit_pair [of 1 0 v e]
  show ?thesis
    using pairs by (simp add: pre last_step eval_nat_numeral)
qed

lemmas tag_eval = TagInfraredDecoder_decode_def TagInfraredDecoder_init_def InfraredDecoder_init_def
  tag_consts check_pulse_def write_bit_def py_index_def py_lshift_def bytearray_def
  bytearray_append_def is_byte_def reset_def reset_bit_writer_def Let_def

lemma encode_52: "TagInfraredEncoder_encode [0x52] = Inr tag_pulses_52"
  by (simp add: encode_closed tag_pulses_52_def tag_space_def tag_consts bit_numeral_simps)

lemma feed_52_twice:
  "feed TagInfraredDecoder_decode TagInfraredDecoder_init
     (tag_pulses_52 @ [0] @ tag_pulses_52 @ [0])
   = Inr (replicate 17 None @ [Some [0]] @ replicate 17 None @ [Some [0x52]],
          reset 0 TagInfraredDecoder_init)"
  by (simp add: tag_pulses_52_def tag_eval eval_nat_numeral)

lemma check_pulse_data [simp]:
  "received_data (snd (check_pulse p e d)) = received_data d"
  by (simp add: check_pulse_def Let_def)

lemma check_pulse_bytes_ok:
  "check_pulse p e d = (m, d1) \<Longrightarrow> bytes_ok d1 = bytes_ok d"
  by (auto simp: bytes_ok_def check_pulse_def Let_def split: if_splits)

lemma reset_bytes_ok [simp]: "bytes_ok (reset m d)"
  by (simp add: bytes_ok_def reset_def reset_bit_writer_def)

lemma state_update_bytes_ok [simp]: "bytes_ok (d\<lparr>decoder_state := s\<rparr>) = bytes_ok d"
  by (simp add: bytes_ok_def)

lemma write_bit_bytes_ok:
  "write_bit b d = Inr d' \<Longrightarrow> bytes_ok d \<Longrightarrow> bytes_ok d'"
  by (auto simp: write_bit_def bytes_ok_def bytearray_append_def reset_bit_writer_def Let_def
      py_lshift_def split: if_splits sum.splits)

lemma tag_decode_bytes_ok:
  assumes "TagInfraredDecoder_decode pulse d = Inr (r, d')" and "bytes_ok d"
  shows "bytes_ok d'"
  using assms
  by (auto simp: TagInfraredDecoder_decode_def Let_def check_pulse_bytes_ok
      split: if_splits sum.splits prod.splits dest: write_bit_bytes_ok)

lemma drop_bit_byte: "is_byte b \<Longrightarrow> 0 \<le> drop_bit 1 b \<and> drop_bit 1 b \<le> 0x7F"
  unfolding is_byte_def drop_bit_eq_div by simp presburger

lemma tag_decode_packet:
  assumes "TagInfraredDecoder_decode pulse d = Inr (Some packet, d')" and "bytes_ok d"
  shows "\<exists>b. packet = [b] \<and> 0 \<le> b \<and> b \<le> 0x7F"
proof -
  from assms(1) obtain d1 b where w: "write_bit 0 d = Inr d1"
    and i: "py_index (received_data d1) 0 = Inr b"
    and p: "packet = [drop_bit 1 b]"
    by (auto simp: TagInfraredDecoder_decode_def Let_def bytearray_def
        split: if_splits sum.splits prod.splits)
  from write_bit_bytes_ok [OF w assms(2)] have "bytes_ok d1" .
  with i have "is_byte b"
    by (auto simp: py_index_def bytes_ok_def list_all_length split: if_splits)
  with p drop_bit_byte [of b] show ?thesis by simp
qed

lemma feed_packets:
  assumes "feed TagInfraredDecoder_decode d pulses = Inr (results, d')" and "bytes_ok d"
    and "Some packet \<in> set results"
  shows "\<exists>b. packet = [b] \<and> 0 \<le> b \<and> b \<le> 0x7F"
  using assms
proof (induction pulses arbitrary: d results)
  case Nil
  then show ?case by simp
next
  case (Cons p ps)
  from Cons.prems(1) obtain r d1 rs where
    s: "TagInfraredDecoder_decode p d = Inr (r, d1)"
    and f: "feed TagInfraredDecoder_decode d1 ps = Inr (rs, d')"
    and res: "results = r # rs"
    by (auto split: sum.splits prod.splits)
  from tag_decode_bytes_ok [OF s Cons.prems(2)] have ok1: "bytes_ok d1" .
  from Cons.prems(3) res have "r = Some packet \<or> Some packet \<in> set rs" by auto
  then show ?case
  proof
    assume "r = Some packet"
    with s Cons.prems(2) show ?thesis by (auto dest: tag_decode_packet)
  next
    assume "Some packet \<in> set rs"
    with Cons.IH [OF f ok1] show ?thesis .
  qed
qed

lemma tag_inv_init: "tag_inv TagInfraredDecoder_init"
  by (simp add: tag_inv_def TagInfraredDecoder_init_def InfraredDecoder_init_def is_byte_def
      bytes_ok_def)

lemma tag_inv_reset: "tag_inv (reset e d)"
  by (simp add: tag_inv_def reset_def reset_bit_writer_def is_byte_def bytes_ok_def bits_done_def)

lemma tag_inv_index:
  assumes "tag_inv d"
  shows "0 \<le> received_bit_index d \<and> received_bit_index d \<le> 7"
proof -
  have "0 \<le> decoder_state d" "decoder_state d \<le> 17"
    using assms by (simp_all add: tag_inv_def)
  then have "0 \<le> bits_done (decoder_state d) \<and> bits_done (decoder_state d) \<le> 7"
    unfolding bits_done_def by presburger
  moreover have "5 \<le> decoder_state d \<longrightarrow> 1 \<le> bits_done (decoder_state d)"
    unfolding bits_done_def by presburger
  ultimately show ?thesis using assms unfolding tag_inv_def by auto
qed

lemma tag_inv_check:
  assumes "check_pulse p e d = (m, d1)"
  shows "tag_inv d1 = tag_inv d \<and> decoder_state d1 = decoder_state d"
  using assms
  by (auto simp: check_pulse_def Let_def tag_inv_def bytes_ok_def split: if_splits)

lemma or_bit_is_byte:
  assumes "is_byte B" "0 \<le> i" "i \<le> 7" "b = 0 \<or> b = 1"
  shows "is_byte (B OR push_bit (nat i) b)"
proof -
  have "(2::int) ^ nat i \<le> 2 ^ 7"
    using assms by (intro power_increasing) auto
  then have p: "push_bit (nat i) b < 2 ^ 8" "0 \<le> push_bit (nat i) b"
    using assms(4) by (auto simp: push_bit_eq_mult)
  have B: "B < 2 ^ 8" "0 \<le> B"
    using assms by (simp_all add: is_byte_def)
  have "B OR push_bit (nat i) b < 2 ^ 8"
    using B(2) B(1) p(1) by (rule OR_upper)
  moreover have "0 \<le> B OR push_bit (nat i) b"
    using B(2) p(2) by simp
  ultimately show ?thesis by (simp add: is_byte_def)
qed

lemma tag_inv_preamble:
  assumes "tag_inv d" "decoder_state d < 3" "decoder_state d1 = decoder_state d" "tag_inv d1"
  shows "tag_inv (d1\<lparr>decoder_state := decoder_state d1 + 1\<rparr>)"
  using assms unfolding tag_inv_def bits_done_def bytes_ok_def by auto

lemma tag_inv_mark:
  assumes "tag_inv d" "3 \<le> decoder_state d" "decoder_state d < 17"
    "(decoder_state d - 3) mod 2 = 0"
  shows "tag_inv (d\<lparr>decoder_state := decoder_state d + 1\<rparr>)"
proof -
  have k: "bits_done (decoder_state d + 1) = bits_done (decoder_state d)"
    using assms(2-4) unfolding bits_done_def by presburger
  have "decoder_state d \<noteq> 4" using assms(4) by presburger
  then show ?thesis using assms(1-3) k unfolding tag_inv_def bytes_ok_def by auto
qed

lemma tag_inv_space:
  assumes "tag_inv d" "3 \<le> decoder_state d" "decoder_state d < 17"
    "(decoder_state d - 3) mod 2 = 1" "b = 0 \<or> b = 1"
  shows "\<exists>d2. write_bit b d = Inr d2 \<and> tag_inv (d2\<lparr>decoder_state := decoder_state d2 + 1\<rparr>)"
proof -
  let ?s = "decoder_state d" and ?i = "received_bit_index d"
  have k: "bits_done (?s + 1) = bits_done ?s + 1" "bits_done ?s \<le> 6" "0 \<le> bits_done ?s"
    "4 \<le> ?s" "?s \<le> 4 \<longrightarrow> bits_done ?s = 0"
    using assms(2-4) unfolding bits_done_def by presburger+
  have idx: "0 \<le> ?i" "?i \<le> 7" using tag_inv_index [OF assms(1)] by auto
  have byte: "is_byte (received_byte d)" using assms(1) by (simp add: tag_inv_def)
  have nb: "is_byte (received_byte d OR push_bit (nat ?i) b)"
    using byte idx assms(5) by (rule or_bit_is_byte)
  note w = write_bit_in_byte [OF idx byte assms(5)]
  show ?thesis
  proof (cases "?i = 0")
    case True
    then have "received_data d = []" "?s \<le> 4"
      using assms(1) k(2,3) unfolding tag_inv_def by auto
    then show ?thesis
      using w True nb assms(1-3) k
      by (auto simp: tag_inv_def bytes_ok_def is_byte_def)
  next
    case False
    then show ?thesis
      using w nb assms(1-3) k idx
      by (auto simp: tag_inv_def bytes_ok_def)
  qed
qed

lemma tag_decode_total:
  assumes "tag_inv d"
  shows "\<exists>r d'. TagInfraredDecoder_decode p d = Inr (r, d') \<and> tag_inv d'"
proof -
  let ?s = "decoder_state d"
  have range: "0 \<le> ?s" "?s \<le> 17" using assms by (simp_all add: tag_inv_def)
  have "?s < 3 \<or> (3 \<le> ?s \<and> ?s < 17 \<and> (?s - 3) mod 2 = 0)
      \<or> (3 \<le> ?s \<and> ?s < 17 \<and> (?s - 3) mod 2 = 1) \<or> ?s = 17"
    using range by presburger
  then consider (preamble) "?s < 3" | (mark) "3 \<le> ?s" "?s < 17" "(?s - 3) mod 2 = 0"
    | (space) "3 \<le> ?s" "?s < 17" "(?s - 3) mod 2 = 1" | (final) "?s = 17"
    by blast
  then show ?thesis
  proof cases
    case preamble
    then obtain x where x: "py_index TAG_PREAMBLE ?s = Inr x"
      using range by (simp add: py_index_def TAG_PREAMBLE_def)
    obtain m d1 where c: "check_pulse p x d = (m, d1)" by (cases "check_pulse p x d")
    from tag_inv_check [OF c] assms have d1: "tag_inv d1" "decoder_state d1 = ?s" by auto
    have "tag_inv (d1\<lparr>decoder_state := decoder_state d1 + 1\<rparr>)"
      using assms preamble d1(2) d1(1) by (rule tag_inv_preamble)
    then show ?thesis
      using preamble x c tag_inv_reset
      by (simp add: TagInfraredDecoder_decode_def TAG_PREAMBLE_def)
  next
    case mark
    obtain m d1 where c: "check_pulse p TAG_MARK d = (m, d1)"
      by (cases "check_pulse p TAG_MARK d")
    from tag_inv_check [OF c] assms have d1: "tag_inv d1" "decoder_state d1 = ?s" by auto
    have "tag_inv (d1\<lparr>decoder_state := decoder_state d1 + 1\<rparr>)"
      using d1 mark by (intro tag_inv_mark) simp_all
    then show ?thesis
      using mark c tag_inv_reset
      by (simp add: TagInfraredDecoder_decode_def tag_consts)
  next
    case space
    obtain m1 d1 where c1: "check_pulse p TAG_SPACE_ONE d = (m1, d1)"
      by (cases "check_pulse p TAG_SPACE_ONE d")
    obtain m2 d2 where c2: "check_pulse p TAG_SPACE_ZERO d1 = (m2, d2)"
      by (cases "check_pulse p TAG_SPACE_ZERO d1")
    from tag_inv_check [OF c1] assms have d1: "tag_inv d1" "decoder_state d1 = ?s" by auto
    from tag_inv_check [OF c2] d1 have d2: "tag_inv d2" "decoder_state d2 = ?s" by auto
    from tag_inv_space [of d1 1] d1 space obtain e1 where
      e1: "write_bit 1 d1 = Inr e1" "tag_inv (e1\<lparr>decoder_state := decoder_state e1 + 1\<rparr>)"
      by auto
    from tag_inv_space [of d2 0] d2 space obtain e2 where
      e2: "write_bit 0 d2 = Inr e2" "tag_inv (e2\<lparr>decoder_state := decoder_state e2 + 1\<rparr>)"
      by auto
    show ?thesis
      using space c1 c2 e1 e2 tag_inv_reset
      by (simp add: TagInfraredDecoder_decode_def tag_consts)
  next
    case final
    have idx: "0 \<le> received_bit_index d" "received_bit_index d \<le> 7"
      using tag_inv_index [OF assms] by auto
    have byte: "is_byte (received_byte d)" and ok: "bytes_ok d"
      using assms by (simp_all add: tag_inv_def)
    note w = write_bit_in_byte [OF idx byte, of 0]
    obtain d1 where d1: "write_bit 0 d = Inr d1" using w by simp
    have data: "received_data d1 \<noteq> []"
      using w d1 assms final by (auto simp: tag_inv_def bits_done_def split: if_splits)
    have ok1: "bytes_ok d1" using d1 ok by (rule write_bit_bytes_ok)
    obtain b rest where br: "received_data d1 = b # rest" using data by (cases "received_data d1") auto
    then have "is_byte b" using ok1 by (simp add: bytes_ok_def)
    then have "is_byte (drop_bit 1 b)" using drop_bit_byte [of b] by (simp add: is_byte_def)
    then show ?thesis
      using final d1 br tag_inv_reset
      by (simp add: TagInfraredDecoder_decode_def tag_consts py_index_def bytearray_def)
  qed
qed

lemma tag_feed_total:
  assumes "tag_inv d"
  shows "\<exists>rs d'. feed TagInfraredDecoder_decode d pulses = Inr (rs, d') \<and> tag_inv d'"
  using assms
proof (induction pulses arbitrary: d)
  case Nil
  then show ?case by simp
next
  case (Cons p ps)
  from tag_decode_total [OF Cons.prems] obtain r d1 where
    s: "TagInfraredDecoder_decode p d = Inr (r, d1)" and i: "tag_inv d1" by blast
  from Cons.IH [OF i] obtain rs d' where
    "feed TagInfraredDecoder_decode d1 ps = Inr (rs, d')" "tag_inv d'" by blast
  with s show ?case by simp
qed

text \<open>
  C10. Whatever pulses are fed to a freshly constructed tag decoder, no \<^verbatim>\<open>decode\<close> call
  raises, and every packet that \<^verbatim>\<open>decode\<close> returns is exactly one byte long with that
  byte at most 0x7F: its most significant bit is zero.
\<close>

theorem tag_packet_shape:
  "\<exists>results d.
     feed TagInfraredDecoder_decode TagInfraredDecoder_init pulses = Inr (results, d)
     \<and> (\<forall>packet. Some packet \<in> set results \<longrightarrow>
           length packet = 1 \<and> 0 \<le> packet ! 0 \<and> packet ! 0 \<le> 0x7F
           \<and> packet ! 0 AND 0x80 = 0)"
proof -
  from tag_feed_total [OF tag_inv_init] obtain results d where
    f: "feed TagInfraredDecoder_decode TagInfraredDecoder_init pulses = Inr (results, d)"
    by blast
  have ok: "bytes_ok TagInfraredDecoder_init"
    by (simp add: bytes_ok_def TagInfraredDecoder_init_def InfraredDecoder_init_def)
  have "length packet = 1 \<and> 0 \<le> packet ! 0 \<and> packet ! 0 \<le> 0x7F \<and> packet ! 0 AND 0x80 = 0"
    if "Some packet \<in> set results" for packet
  proof -
    from feed_packets [OF f ok that] obtain b
      where b: "packet = [b]" "0 \<le> b" "b \<le> 0x7F" by auto
    have "b < 2 ^ 7" using b by simp
    then have "\<not> bit b 7" using b(2) by (simp add: bit_iff_odd)
    moreover have "(0x80::int) = 2 ^ 7" by simp
    ultimately have "b AND 0x80 = 0" by (metis and_exp_eq_0_iff_not_bit)
    with b show ?thesis by simp
  qed
  with f show ?thesis by blast
qed

theorem tag_packet_shape_witness:
  "feed TagInfraredDecoder_decode TagInfraredDecoder_init
     (tag_pulses_52 @ [0] @ tag_pulses_52 @ [0])
   = Inr (replicate 17 None @ [Some [0]] @ replicate 17 None @ [Some [0x52]],
          reset 0 TagInfraredDecoder_init)
   \<and> Some [0x52] \<in> set (replicate 17 None @ [Some [0]] @ replicate 17 None @ [Some [0x52]])
   \<and> length [0x52 :: int] = 1 \<and> (0x52 :: int) \<le> 0x7F \<and> (0x52 :: int) AND 0x80 = 0"
proof -
  from tag_packet_shape [of "tag_pulses_52 @ [0] @ tag_pulses_52 @ [0]"]
  obtain results d where
    f: "feed TagInfraredDecoder_decode TagInfraredDecoder_init
          (tag_pulses_52 @ [0] @ tag_pulses_52 @ [0]) = Inr (results, d)"
    and a: "\<forall>packet. Some packet \<in> set results \<longrightarrow>
           length packet = 1 \<and> 0 \<le> packet ! 0 \<and> packet ! 0 \<le> 0x7F
           \<and> packet ! 0 AND 0x80 = 0"
    by blast
  from f feed_52_twice
  have r: "results = replicate 17 None @ [Some [0]] @ replicate 17 None @ [Some [0x52]]"
    by simp
  then have "Some [0x52] \<in> set results" by simp
  with a have "length [0x52 :: int] = 1 \<and> (0x52 :: int) \<le> 0x7F \<and> (0x52 :: int) AND 0x80 = 0"
    by fastforce
  with r show ?thesis using feed_52_twice by simp
qed

text \<open>
  C1, as stated, fails. The encoder produces 17 pulses and the decoder answers none of them
  with a packet: it returns the packet only on the pulse after the last encoded one. On a
  freshly constructed decoder even that packet is not the original byte, because the bit
  writer of a fresh decoder starts at bit 0: for the byte 0x52 the packet is 0x00.
\<close>

theorem tag_pipeline_counterexample:
  "TagInfraredEncoder_encode [0x52] = Inr tag_pulses_52
   \<and> feed TagInfraredDecoder_decode TagInfraredDecoder_init tag_pulses_52 =
       Inr (replicate 17 None,
            \<lparr>error_threshold = 500, decoder_state = 17, received_data = [1],
             received_bit_index = 1, received_byte = 0x48, max_error_margin = 0,
             last_error_margin = 0\<rparr>)
   \<and> feed TagInfraredDecoder_decode TagInfraredDecoder_init (tag_pulses_52 @ [2000]) =
       Inr (replicate 17 None @ [Some [0]], reset 0 TagInfraredDecoder_init)"
proof (intro conjI)
  show "TagInfraredEncoder_encode [0x52] = Inr tag_pulses_52" by (rule encode_52)
  show "feed TagInfraredDecoder_decode TagInfraredDecoder_init tag_pulses_52 =
       Inr (replicate 17 None,
            \<lparr>error_threshold = 500, decoder_state = 17, received_data = [1],
             received_bit_index = 1, received_byte = 0x48, max_error_margin = 0,
             last_error_margin = 0\<rparr>)"
    by (simp add: tag_pulses_52_def tag_eval eval_nat_numeral)
  show "feed TagInfraredDecoder_decode TagInfraredDecoder_init (tag_pulses_52 @ [2000]) =
       Inr (replicate 17 None @ [Some [0]], reset 0 TagInfraredDecoder_init)"
    by (simp add: tag_pulses_52_def tag_eval eval_nat_numeral)
qed

text \<open>
  C1, amended. For every byte b, on a tag decoder that has been reset, each of the 17
  pulses of the encoding of b is answered with no packet, and the next pulse, of any
  duration, is answered with the one-byte packet b AND 0x7F, which is b itself when
  b is at most 0x7F; the decoder is then reset with margin 0.
\<close>

theorem tag_pipeline_round_trip:
  assumes "is_byte b" and "error_threshold d = TAG_ERROR_MARGIN"
  shows "\<exists>pulses. TagInfraredEncoder_encode [b] = Inr pulses \<and> length pulses = 17
           \<and> feed TagInfraredDecoder_decode (reset e d) (pulses @ [p]) =
               Inr (replicate 17 None @ [Some [b AND 0x7F]], reset 0 d)
           \<and> (b \<le> 0x7F \<longrightarrow> b AND 0x7F = b)"
proof -
  define v where "v = take_bit 7 b"
  have v: "v = b AND 0x7F" by (simp add: v_def take_bit_eq_mask mask_eq_exp_minus_1)
  have "v < 2 ^ 7" unfolding v_def by (rule take_bit_int_less_exp)
  then have range: "0 \<le> v" "v < 128" by (simp_all add: v_def)
  have bits: "bit b 6 = bit v 6" "bit b 5 = bit v 5" "bit b 4 = bit v 4" "bit b 3 = bit v 3"
    "bit b 2 = bit v 2" "bit b 1 = bit v 1" "bit b 0 = bit v 0"
    by (simp_all add: v_def bit_take_bit_iff)
  have thr: "error_threshold d = 500" using assms(2) by (simp add: TAG_ERROR_MARGIN_def)
  have small: "b \<le> 0x7F \<longrightarrow> b AND 0x7F = b"
  proof
    assume "b \<le> 0x7F"
    then have "take_bit 7 b = b" using assms(1) by (simp add: is_byte_def take_bit_int_eq_self)
    then show "b AND 0x7F = b" using v by (simp add: v_def)
  qed
  show ?thesis
    unfolding encode_closed bits reset_tag_decoder [OF thr] v [symmetric]
    using decode_stream [OF range, of e p] small
    by (simp add: v)
qed

theorem tag_pipeline_round_trip_witness:
  "is_byte 0x52 \<and> error_threshold TagInfraredDecoder_init = TAG_ERROR_MARGIN
   \<and> (\<exists>pulses. TagInfraredEncoder_encode [0x52] = Inr pulses \<and> length pulses = 17
        \<and> feed TagInfraredDecoder_decode (reset 0 TagInfraredDecoder_init) (pulses @ [2000]) =
            Inr (replicate 17 None @ [Some [0x52]], reset 0 TagInfraredDecoder_init))"
proof -
  have a: "is_byte 0x52" by (simp add: is_byte_def)
  have t: "error_threshold TagInfraredDecoder_init = TAG_ERROR_MARGIN"
    by (simp add: TagInfraredDecoder_init_def InfraredDecoder_init_def)
  have m: "(0x52::int) AND 0x7F = 0x52" by simp
  show ?thesis
    using a t tag_pipeline_round_trip [OF a t, of 0 2000] unfolding m by simp
qed

section \<open>The multi-sensor receiver\<close>

lemma dict_set_append: "k \<notin> fst ` set xs \<Longrightarrow> dict_set xs k v = xs @ [(k, v)]"
  by (induction xs) auto

lemma map_of_dict_set: "map_of (dict_set xs k v) = (map_of xs)(k \<mapsto> v)"
  by (induction xs) (auto simp: fun_eq_iff)

lemma dict_set_keys:
  "map fst (dict_set xs k v) = (if k \<in> fst ` set xs then map fst xs else map fst xs @ [k])"
  by (induction xs) (force split: if_splits)+

lemma dict_set_key_set: "fst ` set (dict_set xs k v) = insert k (fst ` set xs)"
proof -
  have "set (map fst (dict_set xs k v)) = insert k (set (map fst xs))"
    by (simp add: dict_set_keys insert_absorb)
  then show ?thesis by (simp only: set_map)
qed

lemma queued_keys: "fst ` set (queued readers) \<subseteq> fst ` set readers"
  by (induction readers rule: queued.induct) auto

lemma queued_distinct: "distinct (map fst readers) \<Longrightarrow> distinct (map fst (queued readers))"
proof (induction readers rule: queued.induct)
  case (3 name p q rest)
  then show ?case using queued_keys [of rest] by auto
qed auto

lemma queued_map_of:
  "distinct (map fst readers) \<Longrightarrow>
     map_of (queued readers) name = Some p \<longleftrightarrow> (\<exists>q. map_of readers name = Some (p # q))"
proof (induction readers rule: queued.induct)
  case 1
  then show ?case by simp
next
  case (2 n rest)
  then have "n \<notin> fst ` set (queued rest)" using queued_keys [of rest] by auto
  then have "map_of (queued rest) n = None" by (simp add: map_of_eq_None_iff)
  with 2 show ?case by auto
next
  case (3 n p' q rest)
  then show ?case by auto
qed

lemma read_pulses_queued:
  assumes "distinct (map fst readers)" and "fst ` set acc \<inter> fst ` set readers = {}"
  shows "read_pulses readers acc = (acc @ queued readers, map (\<lambda>(name, q). (name, tl q)) readers)"
  using assms
proof (induction readers arbitrary: acc)
  case Nil
  then show ?case by simp
next
  case (Cons r rest)
  obtain name pulse_reader where r: "r = (name, pulse_reader)" by (cases r)
  have d: "distinct (map fst rest)" and notin: "name \<notin> fst ` set acc"
    and nr: "name \<notin> fst ` set rest"
    using Cons.prems r by auto
  show ?case
  proof (cases pulse_reader)
    case Nil
    have "fst ` set acc \<inter> fst ` set rest = {}" using Cons.prems by auto
    from Cons.IH [OF d this] show ?thesis using r Nil by (simp add: read_pulse_def)
  next
    case (Cons p q)
    have "fst ` set (acc @ [(name, p)]) \<inter> fst ` set rest = {}"
      using Cons.prems nr r by auto
    from Cons.IH [OF d this] show ?thesis
      using r Cons notin by (simp add: read_pulse_def dict_set_append)
  qed
qed

lemma decode_pulses_spec:
  assumes "decode_pulses decode pulses decs datas0 = Inr (datas, decs1)"
    and "distinct (map fst pulses)"
    and "fst ` set datas0 \<inter> fst ` set pulses = {}"
  shows "map fst decs1 = map fst decs
    \<and> (\<forall>n. n \<notin> fst ` set pulses \<longrightarrow>
          map_of decs1 n = map_of decs n \<and> map_of datas n = map_of datas0 n)
    \<and> (\<forall>n p. (n, p) \<in> set pulses \<longrightarrow>
          (\<exists>dec res dec'. map_of decs n = Some dec \<and> decode p dec = Inr (res, dec')
             \<and> map_of decs1 n = Some dec' \<and> map_of datas n = res))"
  using assms
proof (induction pulses arbitrary: decs datas0)
  case Nil
  then show ?case by simp
next
  case (Cons np rest)
  obtain n p where np: "np = (n, p)" by (cases np)
  from Cons.prems(1) np obtain dec res dec1 where
    dec: "map_of decs n = Some dec" and step: "decode p dec = Inr (res, dec1)"
    and rest: "decode_pulses decode rest (dict_set decs n dec1)
                 (case res of None \<Rightarrow> datas0 | Some bs \<Rightarrow> dict_set datas0 n bs) = Inr (datas, decs1)"
    by (auto split: option.splits sum.splits prod.splits)
  let ?decs = "dict_set decs n dec1"
  let ?datas = "case res of None \<Rightarrow> datas0 | Some bs \<Rightarrow> dict_set datas0 n bs"
  have nrest: "n \<notin> fst ` set rest" and drest: "distinct (map fst rest)"
    using Cons.prems(2) np by auto
  have n0: "n \<notin> fst ` set datas0" using Cons.prems(3) np by auto
  have keys: "fst ` set ?datas \<subseteq> insert n (fst ` set datas0)"
    by (cases res) (auto simp: dict_set_key_set)
  have "fst ` set datas0 \<inter> fst ` set rest = {}"
    using Cons.prems(3) np by auto
  with keys nrest have disj: "fst ` set ?datas \<inter> fst ` set rest = {}"
    by blast
  note IH = Cons.IH [OF rest drest disj]
  have nin: "n \<in> fst ` set decs" using dec by (metis map_of_eq_None_iff option.distinct(1))
  have m0: "map_of ?datas n = res"
    using n0 by (cases res) (auto simp: map_of_dict_set map_of_eq_None_iff)
  have other: "\<And>m. m \<noteq> n \<Longrightarrow> map_of ?decs m = map_of decs m \<and> map_of ?datas m = map_of datas0 m"
    by (cases res) (auto simp: map_of_dict_set)
  show ?case
  proof (intro conjI allI impI)
    show "map fst decs1 = map fst decs"
      using IH nin by (simp add: dict_set_keys)
  next
    fix m assume "m \<notin> fst ` set (np # rest)"
    then have "m \<noteq> n" "m \<notin> fst ` set rest" using np by auto
    with IH other show "map_of decs1 m = map_of decs m" by auto
  next
    fix m assume "m \<notin> fst ` set (np # rest)"
    then have "m \<noteq> n" "m \<notin> fst ` set rest" using np by auto
    with IH other show "map_of datas m = map_of datas0 m" by auto
  next
    fix m q assume mq: "(m, q) \<in> set (np # rest)"
    show "\<exists>dec res dec'. map_of decs m = Some dec \<and> decode q dec = Inr (res, dec')
             \<and> map_of decs1 m = Some dec' \<and> map_of datas m = res"
    proof (cases "(m, q) = (n, p)")
      case True
      have "map_of decs1 n = Some dec1" "map_of datas n = res"
        using IH nrest m0 by (auto simp: map_of_dict_set)
      with True dec step show ?thesis by auto
    next
      case False
      with mq np have in_rest: "(m, q) \<in> set rest" by auto
      then have mn: "m \<noteq> n" using nrest by force
      from IH in_rest obtain dec2 res2 dec2' where
        o: "map_of ?decs m = Some dec2" "decode q dec2 = Inr (res2, dec2')"
        "map_of decs1 m = Some dec2'" "map_of datas m = res2"
        by blast
      have "map_of decs m = Some dec2" using other [OF mn] o(1) by simp
      with o(2-4) show ?thesis by blast
    qed
  qed
qed

lemma record_stats_spec:
  assumes "distinct (map fst decs)"
    and "fst ` set macc \<inter> fst ` set decs = {}"
    and "fst ` set sacc \<inter> fst ` set decs = {}"
    and "\<forall>(n, dec) \<in> set (completed datas decs). \<exists>s. last_signal_strength dec = Inr s"
  shows "\<exists>strengths.
           record_stats decs datas macc sacc =
             Inr (macc @ map (\<lambda>(n, dec). (n, last_error_margin dec)) (completed datas decs),
                  sacc @ strengths)
           \<and> map (\<lambda>(n, s). (n, Inr s)) strengths =
               map (\<lambda>(n, dec). (n, last_signal_strength dec)) (completed datas decs)"
  using assms
proof (induction decs arbitrary: macc sacc)
  case Nil
  then show ?case by (simp add: completed_def)
next
  case (Cons nd rest)
  obtain n dec where nd: "nd = (n, dec)" by (cases nd)
  have d: "distinct (map fst rest)" and nrest: "n \<notin> fst ` set rest"
    and nm: "n \<notin> fst ` set macc" and ns: "n \<notin> fst ` set sacc"
    using Cons.prems(1-3) nd by auto
  have thr: "\<forall>(n, dec) \<in> set (completed datas rest). \<exists>s. last_signal_strength dec = Inr s"
    using Cons.prems(4) by (auto simp: completed_def)
  show ?case
  proof (cases "map_of datas n")
    case None
    have "fst ` set macc \<inter> fst ` set rest = {}" "fst ` set sacc \<inter> fst ` set rest = {}"
      using Cons.prems(2,3) by auto
    from Cons.IH [OF d this thr] show ?thesis using None nd by (simp add: completed_def)
  next
    case (Some bs)
    have "\<exists>s. last_signal_strength dec = Inr s"
      using Cons.prems(4) Some nd by (auto simp: completed_def)
    then obtain s where s: "last_signal_strength dec = Inr s" ..
    have "fst ` set (macc @ [(n, last_error_margin dec)]) \<inter> fst ` set rest = {}"
      "fst ` set (sacc @ [(n, s)]) \<inter> fst ` set rest = {}"
      using Cons.prems(2,3) nrest by auto
    from Cons.IH [OF d this thr] obtain strengths where
      r: "record_stats rest datas (macc @ [(n, last_error_margin dec)]) (sacc @ [(n, s)]) =
             Inr ((macc @ [(n, last_error_margin dec)])
                    @ map (\<lambda>(n, dec). (n, last_error_margin dec)) (completed datas rest),
                  (sacc @ [(n, s)]) @ strengths)"
      and m: "map (\<lambda>(n, s). (n, Inr s)) strengths =
               map (\<lambda>(n, dec). (n, last_signal_strength dec)) (completed datas rest)"
      by blast
    have "record_stats (nd # rest) datas macc sacc =
            Inr (macc @ map (\<lambda>(n, dec). (n, last_error_margin dec)) (completed datas (nd # rest)),
                 sacc @ ((n, s) # strengths))"
      using Some nd s r nm ns by (simp add: completed_def dict_set_append)
    moreover have "map (\<lambda>(n, s). (n, Inr s)) ((n, s) # strengths) =
               map (\<lambda>(n, dec). (n, last_signal_strength dec)) (completed datas (nd # rest))"
      using Some nd s m by (simp add: completed_def)
    ultimately show ?thesis by blast
  qed
qed

lemma scan_some: "\<exists>w. best_receiver_scan ms (Some m0) (Some w0) = Some w"
  by (induction ms arbitrary: m0 w0) auto

lemma scan_char:
  "best_receiver_scan ms (Some m0) (Some w0) = Some w \<Longrightarrow>
     (w = w0 \<and> (\<forall>e \<in> snd ` set ms. m0 \<le> e))
     \<or> (\<exists>pre mw post. ms = pre @ (w, mw) # post \<and> mw < m0
           \<and> (\<forall>e \<in> snd ` set pre. mw < e) \<and> (\<forall>e \<in> snd ` set post. mw \<le> e))"
proof (induction ms arbitrary: m0 w0)
  case Nil
  then show ?case by simp
next
  case (Cons ne rest)
  obtain n e where ne: "ne = (n, e)" by (cases ne)
  show ?case
  proof (cases "e < m0")
    case True
    with Cons.prems ne have "best_receiver_scan rest (Some e) (Some n) = Some w" by simp
    from Cons.IH [OF this] show ?thesis
    proof
      assume "w = n \<and> (\<forall>x \<in> snd ` set rest. e \<le> x)"
      then have "ne # rest = [] @ (w, e) # rest \<and> e < m0
           \<and> (\<forall>x \<in> snd ` set []. e < x) \<and> (\<forall>x \<in> snd ` set rest. e \<le> x)"
        using ne True by simp
      then show ?thesis by blast
    next
      assume "\<exists>pre mw post. rest = pre @ (w, mw) # post \<and> mw < e
           \<and> (\<forall>x \<in> snd ` set pre. mw < x) \<and> (\<forall>x \<in> snd ` set post. mw \<le> x)"
      then obtain pre mw post where p: "rest = pre @ (w, mw) # post" "mw < e"
        "\<forall>x \<in> snd ` set pre. mw < x" "\<forall>x \<in> snd ` set post. mw \<le> x" by blast
      then have "ne # rest = (ne # pre) @ (w, mw) # post \<and> mw < m0
           \<and> (\<forall>x \<in> snd ` set (ne # pre). mw < x) \<and> (\<forall>x \<in> snd ` set post. mw \<le> x)"
        using ne True by auto
      then show ?thesis by blast
    qed
  next
    case False
    with Cons.prems ne have "best_receiver_scan rest (Some m0) (Some w0) = Some w" by simp
    from Cons.IH [OF this] show ?thesis
    proof
      assume "w = w0 \<and> (\<forall>x \<in> snd ` set rest. m0 \<le> x)"
      then show ?thesis using ne False by auto
    next
      assume "\<exists>pre mw post. rest = pre @ (w, mw) # post \<and> mw < m0
           \<and> (\<forall>x \<in> snd ` set pre. mw < x) \<and> (\<forall>x \<in> snd ` set post. mw \<le> x)"
      then obtain pre mw post where p: "rest = pre @ (w, mw) # post" "mw < m0"
        "\<forall>x \<in> snd ` set pre. mw < x" "\<forall>x \<in> snd ` set post. mw \<le> x" by blast
      then have "ne # rest = (ne # pre) @ (w, mw) # post \<and> mw < m0
           \<and> (\<forall>x \<in> snd ` set (ne # pre). mw < x) \<and> (\<forall>x \<in> snd ` set post. mw \<le> x)"
        using ne False by auto
      then show ?thesis by blast
    qed
  qed
qed

lemma best_receiver_first_minimum:
  assumes "ms \<noteq> []"
  shows "\<exists>pre w mw post. best_receiver_scan ms None None = Some w
           \<and> ms = pre @ (w, mw) # post
           \<and> (\<forall>e \<in> snd ` set pre. mw < e) \<and> (\<forall>e \<in> snd ` set post. mw \<le> e)"
proof -
  from assms obtain n e rest where ms: "ms = (n, e) # rest" by (cases ms) auto
  obtain w where w: "best_receiver_scan rest (Some e) (Some n) = Some w"
    using scan_some by blast
  from scan_char [OF w] show ?thesis
  proof
    assume "w = n \<and> (\<forall>x \<in> snd ` set rest. e \<le> x)"
    then have "best_receiver_scan ms None None = Some w \<and> ms = [] @ (w, e) # rest
           \<and> (\<forall>x \<in> snd ` set []. e < x) \<and> (\<forall>x \<in> snd ` set rest. e \<le> x)"
      using ms w by simp
    then show ?thesis by blast
  next
    assume "\<exists>pre mw post. rest = pre @ (w, mw) # post \<and> mw < e
           \<and> (\<forall>x \<in> snd ` set pre. mw < x) \<and> (\<forall>x \<in> snd ` set post. mw \<le> x)"
    then obtain pre mw post where p: "rest = pre @ (w, mw) # post" "mw < e"
      "\<forall>x \<in> snd ` set pre. mw < x" "\<forall>x \<in> snd ` set post. mw \<le> x" by blast
    then have "best_receiver_scan ms None None = Some w \<and> ms = ((n, e) # pre) @ (w, mw) # post
           \<and> (\<forall>x \<in> snd ` set ((n, e) # pre). mw < x) \<and> (\<forall>x \<in> snd ` set post. mw \<le> x)"
      using ms w by auto
    then show ?thesis by blast
  qed
qed

lemma two_margins:
  assumes "ms = pre @ (w, mw) # post"
    and "\<forall>e \<in> snd ` set pre. mw < e" and "\<forall>e \<in> snd ` set post. mw \<le> e"
    and "ms = [(a, 10), (b, 40)] \<or> ms = [(b, 40), (a, 10 :: int)]"
  shows "w = a"
proof (cases pre)
  case Nil
  with assms(1,4) have "(w = a \<and> mw = 10) \<or> (w = b \<and> mw = 40 \<and> post = [(a, 10)])"
    by auto
  with assms(3) show ?thesis by auto
next
  case (Cons x pre')
  with assms(1,4) have "pre' = []" by (auto simp: append_eq_Cons_conv)
  with Cons assms(1,4) have "(pre = [(a, 10)] \<and> w = b \<and> mw = 40) \<or> (w = a \<and> mw = 10)"
    by auto
  with assms(2) show ?thesis by auto
qed

text \<open>
  C4. In a round of \<^verbatim>\<open>receive\<close> in which one or more decoders return a packet (the
  signal strength of none of them raising), the margins and signal strengths are recorded
  for exactly the sensors that returned a packet, each from its own decoder; the winner is the first
  sensor, in recording order, whose margin is the smallest (every earlier margin is strictly
  larger, every later one at least as large); every decoder is reset with its own last
  margin; the winner's packet is returned, and \<^verbatim>\<open>last_best_receiver\<close> names the winner.
  With the two margins 10 and 40 recorded, in either order, the winner is the sensor with
  margin 10.
\<close>

theorem receive_arbitration:
  assumes reader_names: "distinct (map fst (pulse_readers r))"
    and decoder_names: "distinct (map fst (decoders r))"
    and rp: "read_pulses (pulse_readers r) [] = (pulses, readers1)"
    and dp: "decode_pulses decode pulses (decoders r) [] = Inr (datas, decs1)"
    and ne: "datas \<noteq> []"
    and thr: "\<forall>(name, dec) \<in> set (completed datas decs1).
                \<exists>s. last_signal_strength dec = Inr s"
  shows "\<exists>pre winner margin post data r'.
      receive_round decode r = Inr (Packet data, r')
    \<and> receive decode r = Inr (Some data, r')
    \<and> (\<forall>name p. map_of pulses name = Some p \<longleftrightarrow>
          (\<exists>q. map_of (pulse_readers r) name = Some (p # q)))
    \<and> (\<forall>name p. map_of pulses name = Some p \<longrightarrow>
          (\<exists>dec res dec'. map_of (decoders r) name = Some dec \<and> decode p dec = Inr (res, dec')
             \<and> map_of decs1 name = Some dec' \<and> map_of datas name = res))
    \<and> (\<forall>name. map_of pulses name = None \<longrightarrow>
          map_of decs1 name = map_of (decoders r) name \<and> map_of datas name = None)
    \<and> last_error_margins r' =
          map (\<lambda>(name, dec). (name, last_error_margin dec)) (completed datas decs1)
    \<and> map (\<lambda>(name, s). (name, Inr s)) (last_signal_strengths r') =
          map (\<lambda>(name, dec). (name, last_signal_strength dec)) (completed datas decs1)
    \<and> last_error_margins r' = pre @ (winner, margin) # post
    \<and> (\<forall>e \<in> snd ` set pre. margin < e) \<and> (\<forall>e \<in> snd ` set post. margin \<le> e)
    \<and> decoders r' = map (\<lambda>(name, dec). (name, reset (last_error_margin dec) dec)) decs1
    \<and> map_of datas winner = Some data
    \<and> last_best_receiver r' = Some winner
    \<and> (\<forall>a b. last_error_margins r' = [(a, 10), (b, 40)]
               \<or> last_error_margins r' = [(b, 40), (a, 10)] \<longrightarrow> winner = a)"
proof -
  from read_pulses_queued [OF reader_names, of "[]"] rp
  have pulses: "pulses = queued (pulse_readers r)" by simp
  have dpulses: "distinct (map fst pulses)"
    unfolding pulses using reader_names by (rule queued_distinct)
  have "fst ` set ([] :: (string \<times> int list) list) \<inter> fst ` set pulses = {}" by simp
  from decode_pulses_spec [OF dp dpulses this]
  have keys: "map fst decs1 = map fst (decoders r)"
    and untouched: "\<forall>n. n \<notin> fst ` set pulses \<longrightarrow>
          map_of decs1 n = map_of (decoders r) n \<and> map_of datas n = map_of [] n"
    and stepped: "\<forall>n p. (n, p) \<in> set pulses \<longrightarrow>
          (\<exists>dec res dec'. map_of (decoders r) n = Some dec \<and> decode p dec = Inr (res, dec')
             \<and> map_of decs1 n = Some dec' \<and> map_of datas n = res)"
    by blast+
  have c1: "\<forall>name p. map_of pulses name = Some p \<longleftrightarrow>
          (\<exists>q. map_of (pulse_readers r) name = Some (p # q))"
    unfolding pulses using queued_map_of [OF reader_names] by blast
  have c2: "\<forall>name p. map_of pulses name = Some p \<longrightarrow>
          (\<exists>dec res dec'. map_of (decoders r) name = Some dec \<and> decode p dec = Inr (res, dec')
             \<and> map_of decs1 name = Some dec' \<and> map_of datas name = res)"
    using stepped by (meson map_of_SomeD)
  have c3: "\<forall>name. map_of pulses name = None \<longrightarrow>
          map_of decs1 name = map_of (decoders r) name \<and> map_of datas name = None"
    using untouched by (simp add: map_of_eq_None_iff)
  have ddecs1: "distinct (map fst decs1)" using keys decoder_names by simp
  \<comment> \<open>some sensor has a packet, and it is one of the decoders\<close>
  from ne obtain n0 pkt0 rest0 where "datas = (n0, pkt0) # rest0" by (cases datas) auto
  then have some0: "map_of datas n0 = Some pkt0" by simp
  with c3 have "map_of pulses n0 \<noteq> None" by force
  then obtain p0 where "map_of pulses n0 = Some p0" by auto
  with c2 obtain dec0' where "map_of decs1 n0 = Some dec0'" by blast
  then have "(n0, dec0') \<in> set decs1" by (rule map_of_SomeD)
  with some0 have "(n0, dec0') \<in> set (completed datas decs1)"
    by (simp add: completed_def)
  then have cne: "completed datas decs1 \<noteq> []" by auto
  have pne: "pulses \<noteq> []" using \<open>map_of pulses n0 = Some p0\<close> by auto
  \<comment> \<open>the statistics\<close>
  from record_stats_spec [OF ddecs1 _ _ thr, of "[]" "[]"]
  obtain strengths where
    rs: "record_stats decs1 datas [] [] =
           Inr (map (\<lambda>(n, dec). (n, last_error_margin dec)) (completed datas decs1), strengths)"
    and st: "map (\<lambda>(n, s). (n, Inr s)) strengths =
               map (\<lambda>(n, dec). (n, last_signal_strength dec)) (completed datas decs1)"
    by auto
  let ?margins = "map (\<lambda>(n, dec). (n, last_error_margin dec)) (completed datas decs1)"
  have mne: "?margins \<noteq> []" using cne by simp
  from best_receiver_first_minimum [OF mne] obtain pre w mw post where
    scan: "best_receiver_scan ?margins None None = Some w"
    and dec: "?margins = pre @ (w, mw) # post"
    and lo: "\<forall>e \<in> snd ` set pre. mw < e" and hi: "\<forall>e \<in> snd ` set post. mw \<le> e"
    by blast
  have "(w, mw) \<in> set ?margins" unfolding dec by simp
  then obtain decw where "(w, decw) \<in> set (completed datas decs1)" by auto
  then have "map_of datas w \<noteq> None" by (auto simp: completed_def)
  then obtain data where data: "map_of datas w = Some data" by auto
  let ?r' = "r\<lparr>pulse_readers := readers1, decoders := reset_decoders decs1,
                last_error_margins := ?margins, last_signal_strengths := strengths\<rparr>"
  have round: "receive_round decode r = Inr (Packet data, ?r')"
    using rp dp ne pne rs scan data
    by (simp add: receive_round_def Let_def)
  then have recv: "receive decode r = Inr (Some data, ?r')" by simp
  have best: "last_best_receiver ?r' = Some w"
    using scan by (simp add: last_best_receiver_def)
  have example: "\<forall>a b. last_error_margins ?r' = [(a, 10), (b, 40)]
               \<or> last_error_margins ?r' = [(b, 40), (a, 10)] \<longrightarrow> w = a"
    using two_margins [OF dec lo hi] by simp
  have f6: "last_error_margins ?r' =
          map (\<lambda>(name, dec). (name, last_error_margin dec)) (completed datas decs1)"
    by simp
  have f7: "map (\<lambda>(name, s). (name, Inr s)) (last_signal_strengths ?r') =
          map (\<lambda>(name, dec). (name, last_signal_strength dec)) (completed datas decs1)"
    using st by simp
  have f8: "last_error_margins ?r' = pre @ (w, mw) # post"
    using dec by simp
  have f11: "decoders ?r' = map (\<lambda>(name, dec). (name, reset (last_error_margin dec) dec)) decs1"
    by (simp add: reset_decoders_def)
  show ?thesis
    apply (rule exI [of _ pre])
    apply (rule exI [of _ w])
    apply (rule exI [of _ mw])
    apply (rule exI [of _ post])
    apply (rule exI [of _ data])
    apply (rule exI [of _ ?r'])
    apply (intro conjI)
                 apply (fact round recv c1 c2 c3 f6 f7 f8 lo hi f11 data best example)+
    done
qed

theorem receive_arbitration_witness:
  "distinct (map fst (pulse_readers arbitration_example))
   \<and> distinct (map fst (decoders arbitration_example))
   \<and> read_pulses (pulse_readers arbitration_example) [] =
        ([(''Left'', 2000), (''Right'', 2000)],
         [(''Left'', []), (''NA'', []), (''Right'', [1, 2])])
   \<and> decode_pulses TagInfraredDecoder_decode [(''Left'', 2000), (''Right'', 2000)]
        (decoders arbitration_example) [] =
        Inr ([(''Left'', [0x51]), (''Right'', [0x53])],
             [(''Left'', reset 40 (closing_decoder 0x51 40)), (''NA'', TagInfraredDecoder_init),
              (''Right'', reset 10 (closing_decoder 0x53 10))])
   \<and> (\<exists>r'. receive TagInfraredDecoder_decode arbitration_example = Inr (Some [0x53], r')
          \<and> last_error_margins r' = [(''Left'', 40), (''Right'', 10)]
          \<and> last_best_receiver r' = Some ''Right'')"
proof -
  let ?decs1 = "[(''Left'', reset 40 (closing_decoder 0x51 40)), (''NA'', TagInfraredDecoder_init),
              (''Right'', reset 10 (closing_decoder 0x53 10))]"
  let ?datas = "[(''Left'', [0x51 :: int]), (''Right'', [0x53])]"
  have h1: "distinct (map fst (pulse_readers arbitration_example))"
    and h2: "distinct (map fst (decoders arbitration_example))"
    by (simp_all add: arbitration_example_def)
  have h3: "read_pulses (pulse_readers arbitration_example) [] =
        ([(''Left'', 2000), (''Right'', 2000)],
         [(''Left'', []), (''NA'', []), (''Right'', [1, 2])])"
    by (simp add: arbitration_example_def read_pulse_def)
  have h4: "decode_pulses TagInfraredDecoder_decode [(''Left'', 2000), (''Right'', 2000)]
        (decoders arbitration_example) [] = Inr (?datas, ?decs1)"
    by (simp add: arbitration_example_def closing_decoder_def tag_eval)
  have h5: "?datas \<noteq> []" by simp
  have h6: "\<forall>(name, dec) \<in> set (completed ?datas ?decs1).
              \<exists>s. last_signal_strength dec = Inr s"
    by (simp add: completed_def closing_decoder_def tag_eval
        signal_strength_40_500 signal_strength_10_500)
  have "\<exists>r'. receive TagInfraredDecoder_decode arbitration_example = Inr (Some [0x53], r')
          \<and> last_error_margins r' = [(''Left'', 40), (''Right'', 10)]
          \<and> last_best_receiver r' = Some ''Right''"
    using receive_arbitration [OF h1 h2 h3 h4 h5 h6]
  proof (elim exE conjE)
    fix pre winner margin post data r'
    assume recv: "receive TagInfraredDecoder_decode arbitration_example = Inr (Some data, r')"
      and margins: "last_error_margins r' =
          map (\<lambda>(name, dec). (name, last_error_margin dec)) (completed ?datas ?decs1)"
      and data: "map_of ?datas winner = Some data"
      and best: "last_best_receiver r' = Some winner"
      and example: "\<forall>a b. last_error_margins r' = [(a, 10), (b, 40)]
               \<or> last_error_margins r' = [(b, 40), (a, 10)] \<longrightarrow> winner = a"
    have m: "last_error_margins r' = [(''Left'', 40), (''Right'', 10)]"
      unfolding margins by (simp add: completed_def closing_decoder_def tag_eval)
    with example have w: "winner = ''Right''" by blast
    with data have "data = [0x53]" by simp
    with recv m best w
    show "\<exists>r'. receive TagInfraredDecoder_decode arbitration_example = Inr (Some [0x53], r')
          \<and> last_error_margins r' = [(''Left'', 40), (''Right'', 10)]
          \<and> last_best_receiver r' = Some ''Right''"
      by blast
  qed
  with h1 h2 h3 h4 show ?thesis by (intro conjI)
qed

text \<open>The same from the first pulse on, through all the rounds of \<^verbatim>\<open>receive\<close>.\<close>

lemma receive_two_sensors:
  "receive TagInfraredDecoder_decode two_sensor_receiver =
     Inr (Some [0x53],
          \<lparr>pulse_readers = [(''Left'', []), (''NA'', []), (''Right'', [6000])],
           decoders = [(''Left'', reset 40 TagInfraredDecoder_init),
                       (''NA'', reset 0 TagInfraredDecoder_init),
                       (''Right'', reset 10 TagInfraredDecoder_init)],
           last_error_margins = [(''Left'', 40), (''Right'', 10)],
           last_signal_strengths = [(''Left'', 1), (''Right'', 1)]\<rparr>)"
  by (simp add: two_sensor_receiver_def InfraredMultiReceiver_init_def receive_round_def
      read_pulse_def signal_strength_40_500 signal_strength_10_500 reset_decoders_def tag_eval)

end
